theory Spec2Isabelle
  imports Main "HOL-Library.Multiset"
begin

section \<open>Reception queue server (Server_main.py)\<close>

text \<open>
  The server keeps two SQL tables, \<open>service\<close> and \<open>ticket\<close>, and answers HTTP requests.
  Each route function is embedded as a function of the request data, the reading of the
  clock taken by \<open>datetime.now(timezone.utc)\<close> (where the route reads it) and the
  database; a route that writes returns the database after its commit, and a route that
  raises returns the database it was given.
\<close>

subsection \<open>Tables and schemas\<close>

text \<open>A \<open>datetime\<close> is a point on the time line; the code only compares them.\<close>

type_synonym datetime = int

record Service =
  svc_id :: int
  svc_name :: string
  svc_description :: "string option"
  svc_created_at :: datetime

record Ticket =
  ticket_id :: int
  ticket_name :: string
  service_id :: int
  called :: bool
  created_at :: datetime
  called_at :: "datetime option"

record ServiceCreate =
  sc_name :: string
  sc_description :: "string option"

record TicketCreate =
  tc_name :: string
  tc_service_id :: int

record TicketRead =
  r_id :: int
  r_name :: string
  r_service_id :: int
  position :: int
  r_called :: bool
  r_created_at :: datetime
  r_called_at :: "datetime option"

record QueueRead =
  q_service_id :: int
  q_service_name :: string
  waiting :: int
  q_tickets :: "TicketRead list"

text \<open>The database: the rows of each table, in rowid order.\<close>

record db =
  services :: "Service list"
  tickets :: "Ticket list"

definition empty_db :: db where
  "empty_db = \<lparr>services = [], tickets = []\<rparr>"

datatype HTTPException = HTTPException (status_code: int) (detail: string)

definition HTTP_201_CREATED :: int where "HTTP_201_CREATED = 201"
definition HTTP_204_NO_CONTENT :: int where "HTTP_204_NO_CONTENT = 204"
definition HTTP_401_UNAUTHORIZED :: int where "HTTP_401_UNAUTHORIZED = 401"

text \<open>
  The status line of a response: the status of the exception when the route raised, the
  \<open>status_code\<close> declared by the route's decorator otherwise.
\<close>

definition response_status :: "int \<Rightarrow> HTTPException + 'a \<Rightarrow> int" where
  "response_status declared r = (case r of Inl e \<Rightarrow> status_code e | Inr _ \<Rightarrow> declared)"

subsection \<open>The session\<close>

text \<open>\<open>session.get(Service, id)\<close> and \<open>session.get(Ticket, id)\<close>: the row with that primary key.\<close>

definition get_service_row :: "int \<Rightarrow> db \<Rightarrow> Service option" where
  "get_service_row sid s = find (\<lambda>v. svc_id v = sid) (services s)"

definition get_ticket_row :: "int \<Rightarrow> db \<Rightarrow> Ticket option" where
  "get_ticket_row tid s = find (\<lambda>t. ticket_id t = tid) (tickets s)"

text \<open>
  The key SQLite gives a row inserted with \<open>id = None\<close> into a table whose primary key is
  an integer column: one more than the largest key in use, and 1 in an empty table.
\<close>

definition next_rowid :: "int list \<Rightarrow> int" where
  "next_rowid ids = (case ids of [] \<Rightarrow> 1 | x # xs \<Rightarrow> fold max xs x + 1)"

subsection \<open>Internal utilities\<close>

definition position_in_queue :: "Ticket \<Rightarrow> db \<Rightarrow> int" where
  "position_in_queue ticket s =
     (if called ticket then 0
      else
        (let earlier_rows =
               filter (\<lambda>u. service_id u = service_id ticket \<and> called u = False
                            \<and> created_at u < created_at ticket) (tickets s)
         in int (length earlier_rows) + 1))"

definition ticket_to_read :: "Ticket \<Rightarrow> int \<Rightarrow> TicketRead" where
  "ticket_to_read ticket pos =
     \<lparr>r_id = ticket_id ticket, r_name = ticket_name ticket,
      r_service_id = service_id ticket, position = pos, r_called = called ticket,
      r_created_at = created_at ticket, r_called_at = called_at ticket\<rparr>"

subsection \<open>Services\<close>

definition create_service ::
  "ServiceCreate \<Rightarrow> datetime \<Rightarrow> db \<Rightarrow> (HTTPException + Service) \<times> db" where
  "create_service data now s =
     (case find (\<lambda>v. svc_name v = sc_name data) (services s) of
        Some _ \<Rightarrow>
          (Inl (HTTPException 400
                  (''Service '' @ [CHR 0x27] @ sc_name data @ [CHR 0x27] @ '' already exists'')),
           s)
      | None \<Rightarrow>
          (let svc = \<lparr>svc_id = next_rowid (map svc_id (services s)),
                      svc_name = sc_name data,
                      svc_description = sc_description data,
                      svc_created_at = now\<rparr>
           in (Inr svc, s\<lparr>services := services s @ [svc]\<rparr>)))"

definition list_services :: "db \<Rightarrow> Service list" where
  "list_services s = sort_key svc_id (services s)"

subsection \<open>Tickets\<close>

definition register_ticket ::
  "TicketCreate \<Rightarrow> datetime \<Rightarrow> db \<Rightarrow> (HTTPException + TicketRead) \<times> db" where
  "register_ticket data now s =
     (case get_service_row (tc_service_id data) s of
        None \<Rightarrow> (Inl (HTTPException 404 ''Service not found''), s)
      | Some service \<Rightarrow>
          (let ticket = \<lparr>ticket_id = next_rowid (map ticket_id (tickets s)),
                         ticket_name = tc_name data,
                         service_id = svc_id service,
                         called = False,
                         created_at = now,
                         called_at = None\<rparr>;
               s' = s\<lparr>tickets := tickets s @ [ticket]\<rparr>;
               pos = position_in_queue ticket s'
           in (Inr (ticket_to_read ticket pos), s')))"

definition get_ticket :: "int \<Rightarrow> db \<Rightarrow> HTTPException + TicketRead" where
  "get_ticket tid s =
     (case get_ticket_row tid s of
        None \<Rightarrow> Inl (HTTPException 404 ''Ticket not found'')
      | Some ticket \<Rightarrow> Inr (ticket_to_read ticket (position_in_queue ticket s)))"

definition cancel_ticket :: "int \<Rightarrow> db \<Rightarrow> (HTTPException + unit) \<times> db" where
  "cancel_ticket tid s =
     (case get_ticket_row tid s of
        None \<Rightarrow> (Inl (HTTPException 404 ''Ticket not found''), s)
      | Some ticket \<Rightarrow>
          if called ticket then (Inl (HTTPException 400 ''Already called; cannot cancel''), s)
          else (Inr (),
                s\<lparr>tickets := filter (\<lambda>u. ticket_id u \<noteq> ticket_id ticket) (tickets s)\<rparr>))"

subsection \<open>Queue detail\<close>

text \<open>
  \<open>select(Ticket).where(service_id == sid).order_by(created_at)\<close>: the rows of the service,
  oldest first. Rows with equal \<open>created_at\<close> are kept in rowid order.
\<close>

definition service_tickets :: "int \<Rightarrow> db \<Rightarrow> Ticket list" where
  "service_tickets sid s =
     sort_key created_at (filter (\<lambda>t. service_id t = sid) (tickets s))"

text \<open>
  The loop of \<open>queue_detail\<close> over \<open>all_tickets\<close>, with its counter \<open>idx\<close>. (The list
  \<open>read_list\<close> that the function builds before the loop is never used.)
\<close>

fun tickets_loop :: "int \<Rightarrow> Ticket list \<Rightarrow> TicketRead list" where
  "tickets_loop idx [] = []"
| "tickets_loop idx (t # ts) =
     (let pos = (if \<not> called t then idx else 0);
          idx' = (if \<not> called t then idx + 1 else idx)
      in ticket_to_read t pos # tickets_loop idx' ts)"

definition queue_detail :: "int \<Rightarrow> db \<Rightarrow> HTTPException + QueueRead" where
  "queue_detail sid s =
     (case get_service_row sid s of
        None \<Rightarrow> Inl (HTTPException 404 ''Service not found'')
      | Some service \<Rightarrow>
          (let all_tickets = service_tickets sid s;
               waiting_n = int (length (filter (\<lambda>t. \<not> called t) all_tickets));
               tickets_list = tickets_loop 1 all_tickets
           in Inr \<lparr>q_service_id = svc_id service, q_service_name = svc_name service,
                   waiting = waiting_n, q_tickets = tickets_list\<rparr>))"

subsection \<open>Calling the next visitor\<close>

definition ADMIN_API_KEY :: string where
  "ADMIN_API_KEY = ''CHANGE_ME''"

definition verify_admin :: "string \<Rightarrow> HTTPException + unit" where
  "verify_admin x_api_key =
     (if x_api_key \<noteq> ADMIN_API_KEY
      then Inl (HTTPException HTTP_401_UNAUTHORIZED ''Invalid API key'')
      else Inr ())"

text \<open>
  \<open>select(Ticket).where(service_id == sid, called == False).order_by(created_at).limit(1)\<close>
  and \<open>.first()\<close>: the oldest waiting row of the service, if there is one.
\<close>

definition waiting_tickets :: "int \<Rightarrow> db \<Rightarrow> Ticket list" where
  "waiting_tickets sid s =
     filter (\<lambda>t. service_id t = sid \<and> called t = False) (tickets s)"

definition first_waiting :: "int \<Rightarrow> db \<Rightarrow> Ticket option" where
  "first_waiting sid s =
     (case sort_key created_at (waiting_tickets sid s) of [] \<Rightarrow> None | t # _ \<Rightarrow> Some t)"

text \<open>The commit of the changed row: an update of the two columns in the row with its key.\<close>

definition mark_called :: "int \<Rightarrow> datetime \<Rightarrow> Ticket list \<Rightarrow> Ticket list" where
  "mark_called tid now ts =
     map (\<lambda>u. if ticket_id u = tid then u\<lparr>called := True, called_at := Some now\<rparr> else u) ts"

definition call_next :: "int \<Rightarrow> datetime \<Rightarrow> db \<Rightarrow> (HTTPException + TicketRead) \<times> db" where
  "call_next sid now s =
     (case first_waiting sid s of
        None \<Rightarrow> (Inl (HTTPException 404 ''No one waiting''), s)
      | Some ticket \<Rightarrow>
          (let ticket' = ticket\<lparr>called := True, called_at := Some now\<rparr>;
               s' = s\<lparr>tickets := mark_called (ticket_id ticket) now (tickets s)\<rparr>
           in (Inr (ticket_to_read ticket' 0), s')))"

text \<open>The route \<open>POST /admin/next/{service_id}\<close>: \<open>verify_admin\<close> runs before the body.\<close>

definition admin_next ::
  "string \<Rightarrow> int \<Rightarrow> datetime \<Rightarrow> db \<Rightarrow> (HTTPException + TicketRead) \<times> db" where
  "admin_next x_api_key sid now s =
     (case verify_admin x_api_key of
        Inl e \<Rightarrow> (Inl e, s)
      | Inr _ \<Rightarrow> call_next sid now s)"

subsection \<open>Runs of the server\<close>

text \<open>
  The requests that write, each with the reading of the clock it is served at. A run
  serves them one after the other, starting from any database.
\<close>

datatype request =
    PostServices ServiceCreate
  | PostTickets TicketCreate
  | DeleteTicket int
  | AdminNext string int

fun step :: "datetime \<times> request \<Rightarrow> db \<Rightarrow> db" where
  "step (now, PostServices data) s = snd (create_service data now s)"
| "step (now, PostTickets data) s = snd (register_ticket data now s)"
| "step (now, DeleteTicket tid) s = snd (cancel_ticket tid s)"
| "step (now, AdminNext key sid) s = snd (admin_next key sid now s)"

definition run :: "(datetime \<times> request) list \<Rightarrow> db \<Rightarrow> db" where
  "run reqs s = fold step reqs s"

text \<open>The primary key of the ticket table: no two rows share an id.\<close>

definition wf_db :: "db \<Rightarrow> bool" where
  "wf_db s = distinct (map ticket_id (tickets s))"

subsection \<open>Overlapping calls of the next visitor\<close>

text \<open>
  The server runs each request with a session of its own and takes no lock. A request for
  the next visitor talks to the database twice: first the \<open>select\<close> that reads the oldest
  waiting row of the service, later the \<open>commit\<close> that writes \<open>called\<close> and \<open>called_at\<close> into
  the row with the key it read. The clock is read between the two, and a request that
  read no row raises without writing. Between the two, other requests may talk to the
  database.
\<close>

definition call_next_commit ::
  "Ticket option \<Rightarrow> datetime \<Rightarrow> db \<Rightarrow> (HTTPException + TicketRead) \<times> db" where
  "call_next_commit ticket_read now s =
     (case ticket_read of
        None \<Rightarrow> (Inl (HTTPException 404 ''No one waiting''), s)
      | Some ticket \<Rightarrow>
          (let ticket' = ticket\<lparr>called := True, called_at := Some now\<rparr>;
               s' = s\<lparr>tickets := mark_called (ticket_id ticket) now (tickets s)\<rparr>
           in (Inr (ticket_to_read ticket' 0), s')))"

text \<open>
  The events of a schedule: request \<open>i\<close> runs its select, or request \<open>i\<close> reads the clock
  and runs its commit. The server state is the database, what each request in flight has
  read, and the responses sent so far, each with the number of its request.
\<close>

datatype event = Sel nat | Com nat datetime

record server =
  database :: db
  in_flight :: "nat \<Rightarrow> Ticket option option"
  responses :: "(nat \<times> (HTTPException + TicketRead)) list"

definition start :: "db \<Rightarrow> server" where
  "start s = \<lparr>database = s, in_flight = (\<lambda>i. None), responses = []\<rparr>"

fun serve :: "int \<Rightarrow> event \<Rightarrow> server \<Rightarrow> server" where
  "serve sid (Sel i) c =
     c\<lparr>in_flight := (in_flight c)(i := Some (first_waiting sid (database c)))\<rparr>"
| "serve sid (Com i now) c =
     (case in_flight c i of
        None \<Rightarrow> c
      | Some ticket_read \<Rightarrow>
          (let res = call_next_commit ticket_read now (database c)
           in c\<lparr>database := snd res,
                in_flight := (in_flight c)(i := None),
                responses := responses c @ [(i, fst res)]\<rparr>))"

definition schedule :: "int \<Rightarrow> event list \<Rightarrow> server \<Rightarrow> server" where
  "schedule sid evs c = fold (serve sid) evs c"

text \<open>
  The serial schedule: the requests \<open>i\<close>, \<open>i + 1\<close>, ... run one after the other, each
  selecting and committing, at the given clock readings, before the next one starts.
\<close>

fun serial :: "nat \<Rightarrow> datetime list \<Rightarrow> event list" where
  "serial i [] = []"
| "serial i (now # nows) = Sel i # Com i now # serial (Suc i) nows"

text \<open>The tickets returned by the successful ones among a list of results.\<close>

fun called_tickets :: "(HTTPException + TicketRead) list \<Rightarrow> TicketRead list" where
  "called_tickets [] = []"
| "called_tickets (Inl e # rs) = called_tickets rs"
| "called_tickets (Inr t # rs) = t # called_tickets rs"

subsection \<open>A small database for concrete checks\<close>

text \<open>
  One service, ``Reception''; Alice arrived at time 10 and was called at time 30, Bob
  arrived at time 20 and is waiting.
\<close>

definition reception :: Service where
  "reception = \<lparr>svc_id = 1, svc_name = ''Reception'', svc_description = None,
                 svc_created_at = 0\<rparr>"

definition alice :: Ticket where
  "alice = \<lparr>ticket_id = 1, ticket_name = ''Alice'', service_id = 1, called = True,
             created_at = 10, called_at = Some 30\<rparr>"

definition bob :: Ticket where
  "bob = \<lparr>ticket_id = 2, ticket_name = ''Bob'', service_id = 1, called = False,
           created_at = 20, called_at = None\<rparr>"

definition demo_db :: db where
  "demo_db = \<lparr>services = [reception], tickets = [alice, bob]\<rparr>"

text \<open>
  A second service, ``Cafe'', and two more visitors: Carol waits at the reception since
  time 25, Dave at the cafe since time 22.
\<close>

definition cafe :: Service where
  "cafe = \<lparr>svc_id = 2, svc_name = ''Cafe'', svc_description = Some ''drinks'',
            svc_created_at = 5\<rparr>"

definition carol :: Ticket where
  "carol = \<lparr>ticket_id = 3, ticket_name = ''Carol'', service_id = 1, called = False,
             created_at = 25, called_at = None\<rparr>"

definition dave :: Ticket where
  "dave = \<lparr>ticket_id = 4, ticket_name = ''Dave'', service_id = 2, called = False,
            created_at = 22, called_at = None\<rparr>"

definition queue_db :: db where
  "queue_db = \<lparr>services = [reception, cafe], tickets = [alice, bob, carol, dave]\<rparr>"

text \<open>
  A run from the empty database in which the clock gives the same reading to two
  registrations: the reception is created at time 0, Alice and Bob both register at
  time 10.
\<close>

definition tie_db :: db where
  "tie_db =
     run [(0, PostServices \<lparr>sc_name = ''Reception'', sc_description = None\<rparr>),
          (10, PostTickets \<lparr>tc_name = ''Alice'', tc_service_id = 1\<rparr>),
          (10, PostTickets \<lparr>tc_name = ''Bob'', tc_service_id = 1\<rparr>)] empty_db"

section \<open>Properties\<close>

subsection \<open>Keys and lookups\<close>

lemma fold_max_base: "(x::int) \<le> fold max xs x"
proof (induction xs arbitrary: x)
  case Nil
  show ?case by simp
next
  case (Cons a xs)
  have "x \<le> max a x" by simp
  also have "\<dots> \<le> fold max xs (max a x)" by (rule Cons.IH)
  finally show ?case by simp
qed

lemma fold_max_ge: "y \<in> set xs \<Longrightarrow> (y::int) \<le> fold max xs x"
proof (induction xs arbitrary: x)
  case Nil
  then show ?case by simp
next
  case (Cons a xs)
  show ?case
  proof (cases "y = a")
    case True
    have "y \<le> max a x" using True by simp
    also have "\<dots> \<le> fold max xs (max a x)" by (rule fold_max_base)
    finally show ?thesis by simp
  next
    case False
    then show ?thesis using Cons by simp
  qed
qed

lemma next_rowid_fresh: "next_rowid ids \<notin> set ids"
proof (cases ids)
  case Nil
  then show ?thesis by simp
next
  case (Cons x xs)
  have "y \<le> fold max xs x" if "y \<in> set ids" for y
    using that fold_max_ge [of y xs x] fold_max_base [of x xs] Cons by auto
  then have "next_rowid ids \<in> set ids \<Longrightarrow> next_rowid ids \<le> fold max xs x"
    by blast
  then show ?thesis
    by (auto simp: next_rowid_def Cons)
qed

lemma find_key_distinct:
  "distinct (map f xs) \<Longrightarrow> t \<in> set xs \<Longrightarrow> find (\<lambda>u. f u = f t) xs = Some t"
  by (induction xs) (auto simp: image_iff)

lemma get_ticket_row_Some:
  "get_ticket_row tid s = Some t \<Longrightarrow> t \<in> set (tickets s) \<and> ticket_id t = tid"
  by (auto simp: get_ticket_row_def find_Some_iff)

lemma get_ticket_row_None:
  "get_ticket_row tid s = None \<longleftrightarrow> tid \<notin> ticket_id ` set (tickets s)"
  by (auto simp: get_ticket_row_def find_None_iff)

lemma get_ticket_row_wf:
  "wf_db s \<Longrightarrow> t \<in> set (tickets s) \<Longrightarrow> get_ticket_row (ticket_id t) s = Some t"
  unfolding wf_db_def get_ticket_row_def by (rule find_key_distinct)

lemma get_service_row_Some:
  "get_service_row sid s = Some v \<Longrightarrow> v \<in> set (services s) \<and> svc_id v = sid"
  by (auto simp: get_service_row_def find_Some_iff)

lemma get_service_row_None:
  "get_service_row sid s = None \<longleftrightarrow> sid \<notin> svc_id ` set (services s)"
  by (auto simp: get_service_row_def find_None_iff)

subsection \<open>Cancelling a ticket\<close>

text \<open>
  Claim C4. \<open>cancel_ticket\<close> on an id that no ticket has raises 404 ``Ticket not found''.
  On a ticket that has been called it raises the conflict ``Already called; cannot
  cancel'' (sent with status 400); the database is the one it was given and the ticket is
  still there. On a waiting ticket it returns nothing, the response has status 204, the
  row with that id is gone, and every other row and every service is as before.
\<close>

theorem cancel_ticket_outcomes:
  "(tid \<notin> ticket_id ` set (tickets s) \<longrightarrow>
      cancel_ticket tid s = (Inl (HTTPException 404 ''Ticket not found''), s)) \<and>
   (\<forall>t. get_ticket_row tid s = Some t \<and> called t \<longrightarrow>
      cancel_ticket tid s = (Inl (HTTPException 400 ''Already called; cannot cancel''), s) \<and>
      get_ticket_row tid (snd (cancel_ticket tid s)) = Some t) \<and>
   (\<forall>t. get_ticket_row tid s = Some t \<and> \<not> called t \<longrightarrow>
      fst (cancel_ticket tid s) = Inr () \<and>
      response_status HTTP_204_NO_CONTENT (fst (cancel_ticket tid s)) = 204 \<and>
      get_ticket_row tid (snd (cancel_ticket tid s)) = None \<and>
      tickets (snd (cancel_ticket tid s)) = filter (\<lambda>u. ticket_id u \<noteq> tid) (tickets s) \<and>
      services (snd (cancel_ticket tid s)) = services s)"
proof (intro conjI allI impI)
  assume "tid \<notin> ticket_id ` set (tickets s)"
  then have "get_ticket_row tid s = None" by (simp add: get_ticket_row_None)
  then show "cancel_ticket tid s = (Inl (HTTPException 404 ''Ticket not found''), s)"
    by (simp add: cancel_ticket_def)
next
  fix t assume h: "get_ticket_row tid s = Some t \<and> called t"
  then show c: "cancel_ticket tid s = (Inl (HTTPException 400 ''Already called; cannot cancel''), s)"
    by (simp add: cancel_ticket_def)
  show "get_ticket_row tid (snd (cancel_ticket tid s)) = Some t"
    using h by (simp add: c)
next
  fix t assume h: "get_ticket_row tid s = Some t \<and> \<not> called t"
  then have id: "ticket_id t = tid" using get_ticket_row_Some by blast
  have c: "cancel_ticket tid s = (Inr (), s\<lparr>tickets := filter (\<lambda>u. ticket_id u \<noteq> tid) (tickets s)\<rparr>)"
    using h id by (simp add: cancel_ticket_def)
  show "fst (cancel_ticket tid s) = Inr ()" by (simp add: c)
  show "response_status HTTP_204_NO_CONTENT (fst (cancel_ticket tid s)) = 204"
    by (simp add: c response_status_def HTTP_204_NO_CONTENT_def)
  show "get_ticket_row tid (snd (cancel_ticket tid s)) = None"
    by (auto simp: c get_ticket_row_None)
  show "tickets (snd (cancel_ticket tid s)) = filter (\<lambda>u. ticket_id u \<noteq> tid) (tickets s)"
    by (simp add: c)
  show "services (snd (cancel_ticket tid s)) = services s"
    by (simp add: c)
qed

theorem cancel_ticket_outcomes_witness:
  "cancel_ticket 3 demo_db = (Inl (HTTPException 404 ''Ticket not found''), demo_db) \<and>
   get_ticket_row 1 demo_db = Some alice \<and> called alice \<and>
   cancel_ticket 1 demo_db = (Inl (HTTPException 400 ''Already called; cannot cancel''), demo_db) \<and>
   get_ticket_row 2 demo_db = Some bob \<and> \<not> called bob \<and>
   fst (cancel_ticket 2 demo_db) = Inr () \<and>
   tickets (snd (cancel_ticket 2 demo_db)) = [alice]"
  using cancel_ticket_outcomes [of 3 demo_db] cancel_ticket_outcomes [of 1 demo_db]
    cancel_ticket_outcomes [of 2 demo_db]
  by (simp add: demo_db_def alice_def bob_def get_ticket_row_def)

subsection \<open>Creating a service\<close>

text \<open>
  Claim C7, as the code has it. \<open>create_service\<close> with a name that a service already
  has raises \<open>HTTPException(400, "Service '...' already exists")\<close>: the status is 400, and
  the database, with the service of that name, is the one it was given. With a name that
  no service has it appends one service with the name, the description and the clock
  reading it was given and a key that no service had, and returns it; the response has
  the declared status 201.
\<close>

theorem create_service_outcomes:
  "((\<exists>v \<in> set (services s). svc_name v = sc_name data) \<longrightarrow>
      create_service data now s =
        (Inl (HTTPException 400
                (''Service '' @ [CHR 0x27] @ sc_name data @ [CHR 0x27] @ '' already exists'')), s)) \<and>
   ((\<forall>v \<in> set (services s). svc_name v \<noteq> sc_name data) \<longrightarrow>
      (\<exists>svc. create_service data now s = (Inr svc, s\<lparr>services := services s @ [svc]\<rparr>) \<and>
             response_status HTTP_201_CREATED (fst (create_service data now s)) = 201 \<and>
             svc_name svc = sc_name data \<and>
             svc_description svc = sc_description data \<and>
             svc_created_at svc = now \<and>
             svc_id svc \<notin> svc_id ` set (services s)))"
proof (intro conjI impI)
  assume "\<exists>v \<in> set (services s). svc_name v = sc_name data"
  then have "find (\<lambda>v. svc_name v = sc_name data) (services s) \<noteq> None"
    by (auto simp: find_None_iff)
  then show "create_service data now s =
        (Inl (HTTPException 400
                (''Service '' @ [CHR 0x27] @ sc_name data @ [CHR 0x27] @ '' already exists'')), s)"
    by (auto simp: create_service_def)
next
  assume "\<forall>v \<in> set (services s). svc_name v \<noteq> sc_name data"
  then have none: "find (\<lambda>v. svc_name v = sc_name data) (services s) = None"
    by (simp add: find_None_iff)
  define svc where "svc = \<lparr>svc_id = next_rowid (map svc_id (services s)),
                      svc_name = sc_name data,
                      svc_description = sc_description data,
                      svc_created_at = now\<rparr>"
  have c: "create_service data now s = (Inr svc, s\<lparr>services := services s @ [svc]\<rparr>)"
    using none by (simp add: create_service_def svc_def Let_def)
  have fresh: "svc_id svc \<notin> svc_id ` set (services s)"
    using next_rowid_fresh [of "map svc_id (services s)"] by (simp add: svc_def)
  show "\<exists>svc. create_service data now s = (Inr svc, s\<lparr>services := services s @ [svc]\<rparr>) \<and>
             response_status HTTP_201_CREATED (fst (create_service data now s)) = 201 \<and>
             svc_name svc = sc_name data \<and>
             svc_description svc = sc_description data \<and>
             svc_created_at svc = now \<and>
             svc_id svc \<notin> svc_id ` set (services s)"
    using c fresh
    by (intro exI [of _ svc]) (simp add: svc_def response_status_def HTTP_201_CREATED_def)
qed

theorem create_service_outcomes_witness:
  "create_service \<lparr>sc_name = ''Reception'', sc_description = Some ''again''\<rparr> 50 demo_db =
     (Inl (HTTPException 400 ''Service 'Reception' already exists''), demo_db) \<and>
   fst (create_service \<lparr>sc_name = ''Cafe'', sc_description = None\<rparr> 50 demo_db) =
     Inr \<lparr>svc_id = 2, svc_name = ''Cafe'', svc_description = None, svc_created_at = 50\<rparr>"
  using create_service_outcomes [of demo_db "\<lparr>sc_name = ''Reception'', sc_description = Some ''again''\<rparr>" 50]
    create_service_outcomes [of demo_db "\<lparr>sc_name = ''Cafe'', sc_description = None\<rparr>" 50]
  by (simp add: demo_db_def reception_def create_service_def next_rowid_def Let_def)

text \<open>
  The duplicate is not answered with status 409: creating ``Reception'' a second time
  raises status 400.
\<close>

theorem create_service_duplicate_status_counterexample:
  "fst (create_service \<lparr>sc_name = ''Reception'', sc_description = None\<rparr> 50 demo_db) =
     Inl (HTTPException 400 ''Service 'Reception' already exists'') \<and>
   response_status HTTP_201_CREATED
     (fst (create_service \<lparr>sc_name = ''Reception'', sc_description = None\<rparr> 50 demo_db)) \<noteq> 409"
  by (simp add: demo_db_def reception_def create_service_def response_status_def)

subsection \<open>Registering a ticket\<close>

text \<open>
  Claim C5, as the code has it. \<open>register_ticket\<close> for a service id that no service has
  raises 404 ``Service not found'' and the database is the one it was given. For the id
  of a service it appends one ticket, whatever the name (the empty string too): the
  ticket has the name and the service id of the request, a key that no ticket had, is not
  called, has no \<open>called_at\<close> and has the clock reading as \<open>created_at\<close>; the route returns
  it with its position in the new database, under the declared status 201.
\<close>

theorem register_ticket_outcomes:
  "(tc_service_id data \<notin> svc_id ` set (services s) \<longrightarrow>
      register_ticket data now s = (Inl (HTTPException 404 ''Service not found''), s)) \<and>
   (tc_service_id data \<in> svc_id ` set (services s) \<longrightarrow>
      (\<exists>t. snd (register_ticket data now s) = s\<lparr>tickets := tickets s @ [t]\<rparr> \<and>
           fst (register_ticket data now s) =
             Inr (ticket_to_read t (position_in_queue t (snd (register_ticket data now s)))) \<and>
           response_status HTTP_201_CREATED (fst (register_ticket data now s)) = 201 \<and>
           ticket_id t \<notin> ticket_id ` set (tickets s) \<and>
           ticket_name t = tc_name data \<and>
           service_id t = tc_service_id data \<and>
           \<not> called t \<and> created_at t = now \<and> called_at t = None))"
proof (intro conjI impI)
  assume "tc_service_id data \<notin> svc_id ` set (services s)"
  then have "get_service_row (tc_service_id data) s = None"
    by (simp add: get_service_row_None)
  then show "register_ticket data now s = (Inl (HTTPException 404 ''Service not found''), s)"
    by (simp add: register_ticket_def)
next
  assume "tc_service_id data \<in> svc_id ` set (services s)"
  then obtain service where g: "get_service_row (tc_service_id data) s = Some service"
    using get_service_row_None [of "tc_service_id data" s] by fastforce
  then have sid: "svc_id service = tc_service_id data"
    using get_service_row_Some by blast
  define t where "t = \<lparr>ticket_id = next_rowid (map ticket_id (tickets s)),
                         ticket_name = tc_name data,
                         service_id = svc_id service,
                         called = False,
                         created_at = now,
                         called_at = None\<rparr>"
  have c: "register_ticket data now s =
      (Inr (ticket_to_read t (position_in_queue t (s\<lparr>tickets := tickets s @ [t]\<rparr>))),
       s\<lparr>tickets := tickets s @ [t]\<rparr>)"
    using g by (simp add: register_ticket_def t_def Let_def)
  have fresh: "ticket_id t \<notin> ticket_id ` set (tickets s)"
    using next_rowid_fresh [of "map ticket_id (tickets s)"] by (simp add: t_def)
  show "\<exists>t. snd (register_ticket data now s) = s\<lparr>tickets := tickets s @ [t]\<rparr> \<and>
           fst (register_ticket data now s) =
             Inr (ticket_to_read t (position_in_queue t (snd (register_ticket data now s)))) \<and>
           response_status HTTP_201_CREATED (fst (register_ticket data now s)) = 201 \<and>
           ticket_id t \<notin> ticket_id ` set (tickets s) \<and>
           ticket_name t = tc_name data \<and>
           service_id t = tc_service_id data \<and>
           \<not> called t \<and> created_at t = now \<and> called_at t = None"
    using fresh sid
    by (intro exI [of _ t]) (simp add: c t_def response_status_def HTTP_201_CREATED_def)
qed

theorem register_ticket_outcomes_witness:
  "register_ticket \<lparr>tc_name = ''Erin'', tc_service_id = 9\<rparr> 40 queue_db =
     (Inl (HTTPException 404 ''Service not found''), queue_db) \<and>
   register_ticket \<lparr>tc_name = ''Erin'', tc_service_id = 2\<rparr> 40 queue_db =
     (Inr \<lparr>r_id = 5, r_name = ''Erin'', r_service_id = 2, position = 2, r_called = False,
           r_created_at = 40, r_called_at = None\<rparr>,
      queue_db\<lparr>tickets := [alice, bob, carol, dave,
         \<lparr>ticket_id = 5, ticket_name = ''Erin'', service_id = 2, called = False,
          created_at = 40, called_at = None\<rparr>]\<rparr>)"
  using register_ticket_outcomes [of "\<lparr>tc_name = ''Erin'', tc_service_id = 9\<rparr>" queue_db 40]
    register_ticket_outcomes [of "\<lparr>tc_name = ''Erin'', tc_service_id = 2\<rparr>" queue_db 40]
  by (simp add: queue_db_def reception_def cafe_def alice_def bob_def carol_def dave_def
      register_ticket_def get_service_row_def next_rowid_def Let_def position_in_queue_def
      ticket_to_read_def)

text \<open>
  The empty name is not refused: registering \<open>""\<close> at the reception creates ticket 3,
  waiting behind Bob.
\<close>

theorem register_ticket_empty_name_counterexample:
  "register_ticket \<lparr>tc_name = '''', tc_service_id = 1\<rparr> 40 demo_db =
     (Inr \<lparr>r_id = 3, r_name = '''', r_service_id = 1, position = 2, r_called = False,
           r_created_at = 40, r_called_at = None\<rparr>,
      demo_db\<lparr>tickets := [alice, bob,
         \<lparr>ticket_id = 3, ticket_name = '''', service_id = 1, called = False,
          created_at = 40, called_at = None\<rparr>]\<rparr>)"
  by (simp add: demo_db_def reception_def alice_def bob_def
      register_ticket_def get_service_row_def next_rowid_def Let_def position_in_queue_def
      ticket_to_read_def)

subsection \<open>Calling the next visitor\<close>

lemma sort_key_head_min:
  assumes "sort_key f xs = t # rest"
  shows "t \<in> set xs \<and> (\<forall>u \<in> set xs. f t \<le> f u)"
proof -
  have "set (sort_key f xs) = set xs" by simp
  then have mem: "set xs = insert t (set rest)" using assms by simp
  have "sorted (map f (sort_key f xs))" by (rule sorted_sort_key)
  then have "\<forall>u \<in> set rest. f t \<le> f u" using assms by simp
  then show ?thesis using mem by auto
qed

lemma first_waiting_None:
  "first_waiting sid s = None \<longleftrightarrow> waiting_tickets sid s = []"
proof -
  have "sort_key created_at (waiting_tickets sid s) = [] \<longleftrightarrow> waiting_tickets sid s = []"
    by (metis length_sort length_0_conv)
  then show ?thesis
    by (cases "sort_key created_at (waiting_tickets sid s)") (simp_all add: first_waiting_def)
qed

lemma first_waiting_Some:
  assumes "first_waiting sid s = Some t"
  shows "t \<in> set (tickets s) \<and> service_id t = sid \<and> \<not> called t \<and>
         (\<forall>u \<in> set (tickets s). service_id u = sid \<and> \<not> called u \<longrightarrow> created_at t \<le> created_at u)"
proof -
  from assms obtain rest where "sort_key created_at (waiting_tickets sid s) = t # rest"
    by (auto simp: first_waiting_def split: list.splits)
  from sort_key_head_min [OF this]
  show ?thesis by (auto simp: waiting_tickets_def)
qed

lemma mark_called_distinct:
  assumes "distinct (map ticket_id ts)" and "t \<in> set ts"
  shows "mark_called (ticket_id t) now ts =
         map (\<lambda>u. if u = t then t\<lparr>called := True, called_at := Some now\<rparr> else u) ts"
  unfolding mark_called_def
proof (rule map_cong [OF refl])
  fix u assume "u \<in> set ts"
  then have "ticket_id u = ticket_id t \<longleftrightarrow> u = t"
    using assms by (auto simp: distinct_map inj_on_def)
  then show "(if ticket_id u = ticket_id t then u\<lparr>called := True, called_at := Some now\<rparr> else u) =
             (if u = t then t\<lparr>called := True, called_at := Some now\<rparr> else u)"
    by auto
qed

text \<open>
  Claim C1. When no ticket of the service is waiting, \<open>call_next\<close> raises 404 ``No one
  waiting'' and the database is the one it was given. When one is waiting, there is a
  waiting ticket of the service whose \<open>created_at\<close> no waiting ticket of the service
  precedes, such that \<open>call_next\<close> returns it with \<open>called = True\<close>, \<open>called_at\<close> the clock
  reading and position 0, and the new database differs from the old one in that ticket
  only, which has \<open>called = True\<close> and the clock reading as \<open>called_at\<close>.
\<close>

theorem call_next_fifo:
  "(waiting_tickets sid s = [] \<longrightarrow>
      call_next sid now s = (Inl (HTTPException 404 ''No one waiting''), s)) \<and>
   (wf_db s \<and> waiting_tickets sid s \<noteq> [] \<longrightarrow>
      (\<exists>t \<in> set (tickets s).
         service_id t = sid \<and> \<not> called t \<and>
         (\<forall>u \<in> set (tickets s). service_id u = sid \<and> \<not> called u \<longrightarrow>
            created_at t \<le> created_at u) \<and>
         fst (call_next sid now s) =
           Inr (ticket_to_read (t\<lparr>called := True, called_at := Some now\<rparr>) 0) \<and>
         tickets (snd (call_next sid now s)) =
           map (\<lambda>u. if u = t then t\<lparr>called := True, called_at := Some now\<rparr> else u) (tickets s) \<and>
         services (snd (call_next sid now s)) = services s))"
proof (intro conjI impI)
  assume "waiting_tickets sid s = []"
  then have "first_waiting sid s = None" by (simp add: first_waiting_None)
  then show "call_next sid now s = (Inl (HTTPException 404 ''No one waiting''), s)"
    by (simp add: call_next_def)
next
  assume h: "wf_db s \<and> waiting_tickets sid s \<noteq> []"
  then obtain t where f: "first_waiting sid s = Some t"
    using first_waiting_None [of sid s] by auto
  note props = first_waiting_Some [OF f]
  have c: "call_next sid now s =
      (Inr (ticket_to_read (t\<lparr>called := True, called_at := Some now\<rparr>) 0),
       s\<lparr>tickets := mark_called (ticket_id t) now (tickets s)\<rparr>)"
    using f by (simp add: call_next_def Let_def)
  have m: "mark_called (ticket_id t) now (tickets s) =
         map (\<lambda>u. if u = t then t\<lparr>called := True, called_at := Some now\<rparr> else u) (tickets s)"
    using h props by (intro mark_called_distinct) (simp_all add: wf_db_def)
  show "\<exists>t \<in> set (tickets s).
         service_id t = sid \<and> \<not> called t \<and>
         (\<forall>u \<in> set (tickets s). service_id u = sid \<and> \<not> called u \<longrightarrow>
            created_at t \<le> created_at u) \<and>
         fst (call_next sid now s) =
           Inr (ticket_to_read (t\<lparr>called := True, called_at := Some now\<rparr>) 0) \<and>
         tickets (snd (call_next sid now s)) =
           map (\<lambda>u. if u = t then t\<lparr>called := True, called_at := Some now\<rparr> else u) (tickets s) \<and>
         services (snd (call_next sid now s)) = services s"
    using props by (intro bexI [of _ t]) (simp_all add: c m)
qed

theorem call_next_fifo_witness:
  "waiting_tickets 2 demo_db = [] \<and>
   call_next 2 60 demo_db = (Inl (HTTPException 404 ''No one waiting''), demo_db) \<and>
   wf_db queue_db \<and> waiting_tickets 1 queue_db \<noteq> [] \<and>
   call_next 1 60 queue_db =
     (Inr \<lparr>r_id = 2, r_name = ''Bob'', r_service_id = 1, position = 0, r_called = True,
           r_created_at = 20, r_called_at = Some 60\<rparr>,
      queue_db\<lparr>tickets := [alice, bob\<lparr>called := True, called_at := Some 60\<rparr>, carol, dave]\<rparr>)"
  using call_next_fifo [of 2 demo_db 60] call_next_fifo [of 1 queue_db 60]
  by (simp add: queue_db_def demo_db_def alice_def bob_def carol_def dave_def wf_db_def
      waiting_tickets_def call_next_def first_waiting_def mark_called_def ticket_to_read_def
      Let_def)

subsection \<open>Queue detail\<close>

lemma length_tickets_loop: "length (tickets_loop idx ts) = length ts"
  by (induction ts arbitrary: idx) (simp_all add: Let_def)

lemma tickets_loop_nth:
  "k < length ts \<Longrightarrow>
   tickets_loop idx ts ! k =
     ticket_to_read (ts ! k)
       (if called (ts ! k) then 0
        else idx + int (length (filter (\<lambda>t. \<not> called t) (take k ts))))"
proof (induction ts arbitrary: idx k)
  case Nil
  then show ?case by simp
next
  case (Cons a ts)
  show ?case
  proof (cases k)
    case 0
    then show ?thesis by (simp add: Let_def)
  next
    case (Suc j)
    then have "j < length ts" using Cons.prems by simp
    from Cons.IH [OF this] show ?thesis
      by (simp add: Suc Let_def add.assoc)
  qed
qed

lemma mset_service_tickets:
  "mset (service_tickets sid s) = mset (filter (\<lambda>t. service_id t = sid) (tickets s))"
  by (simp add: service_tickets_def)

lemma sorted_service_tickets: "sorted (map created_at (service_tickets sid s))"
  by (simp add: service_tickets_def)

lemma waiting_service_tickets:
  "length (filter (\<lambda>t. \<not> called t) (service_tickets sid s)) = length (waiting_tickets sid s)"
proof -
  have "filter (\<lambda>t. \<not> called t) (service_tickets sid s) =
        sort_key created_at (waiting_tickets sid s)"
    by (simp add: service_tickets_def waiting_tickets_def filter_sort conj_commute)
  then show ?thesis by simp
qed

text \<open>
  Claim C8. \<open>queue_detail\<close> for a service id that no service has raises 404 ``Service not
  found''. For the id of a service it returns the id and name of the service, the number
  of waiting tickets of the service, and a list made from all the tickets of the
  service, waiting and called, each once, in ascending order of \<open>created_at\<close>: each
  entry carries the id, name, service id, \<open>called\<close>, \<open>created_at\<close> and \<open>called_at\<close> of its
  ticket; the entry of a called ticket has position 0, the entry of a waiting ticket has
  position one more than the number of waiting tickets before it in the list.
\<close>

theorem queue_detail_lists_all:
  "(sid \<notin> svc_id ` set (services s) \<longrightarrow>
      queue_detail sid s = Inl (HTTPException 404 ''Service not found'')) \<and>
   (\<forall>v. get_service_row sid s = Some v \<longrightarrow>
      (\<exists>q ts. queue_detail sid s = Inr q \<and>
         q_service_id q = sid \<and> q_service_name q = svc_name v \<and>
         waiting q = int (length (waiting_tickets sid s)) \<and>
         mset ts = mset (filter (\<lambda>t. service_id t = sid) (tickets s)) \<and>
         sorted (map created_at ts) \<and>
         length (q_tickets q) = length ts \<and>
         (\<forall>k < length ts.
            q_tickets q ! k =
              \<lparr>r_id = ticket_id (ts ! k), r_name = ticket_name (ts ! k),
               r_service_id = service_id (ts ! k),
               position =
                 (if called (ts ! k) then 0
                  else 1 + int (length (filter (\<lambda>t. \<not> called t) (take k ts)))),
               r_called = called (ts ! k), r_created_at = created_at (ts ! k),
               r_called_at = called_at (ts ! k)\<rparr>)))"
proof (intro conjI allI impI)
  assume "sid \<notin> svc_id ` set (services s)"
  then have "get_service_row sid s = None" by (simp add: get_service_row_None)
  then show "queue_detail sid s = Inl (HTTPException 404 ''Service not found'')"
    by (simp add: queue_detail_def)
next
  fix v assume g: "get_service_row sid s = Some v"
  define ts where "ts = service_tickets sid s"
  define q where "q = \<lparr>q_service_id = svc_id v, q_service_name = svc_name v,
                   waiting = int (length (filter (\<lambda>t. \<not> called t) ts)),
                   q_tickets = tickets_loop 1 ts\<rparr>"
  have c: "queue_detail sid s = Inr q"
    using g by (simp add: queue_detail_def q_def ts_def Let_def)
  have sid: "svc_id v = sid" using g get_service_row_Some by blast
  have w: "waiting q = int (length (waiting_tickets sid s))"
    by (simp add: q_def ts_def waiting_service_tickets)
  have nth: "q_tickets q ! k =
              \<lparr>r_id = ticket_id (ts ! k), r_name = ticket_name (ts ! k),
               r_service_id = service_id (ts ! k),
               position =
                 (if called (ts ! k) then 0
                  else 1 + int (length (filter (\<lambda>t. \<not> called t) (take k ts)))),
               r_called = called (ts ! k), r_created_at = created_at (ts ! k),
               r_called_at = called_at (ts ! k)\<rparr>" if "k < length ts" for k
    using that by (simp add: q_def tickets_loop_nth ticket_to_read_def)
  have m: "mset ts = mset (filter (\<lambda>t. service_id t = sid) (tickets s))"
    unfolding ts_def by (rule mset_service_tickets)
  have srt: "sorted (map created_at ts)"
    unfolding ts_def by (rule sorted_service_tickets)
  have len: "length (q_tickets q) = length ts"
    by (simp add: q_def length_tickets_loop)
  have names: "q_service_id q = sid" "q_service_name q = svc_name v"
    by (simp_all add: q_def sid)
  from c names w m srt len nth
  show "\<exists>q ts. queue_detail sid s = Inr q \<and>
         q_service_id q = sid \<and> q_service_name q = svc_name v \<and>
         waiting q = int (length (waiting_tickets sid s)) \<and>
         mset ts = mset (filter (\<lambda>t. service_id t = sid) (tickets s)) \<and>
         sorted (map created_at ts) \<and>
         length (q_tickets q) = length ts \<and>
         (\<forall>k < length ts.
            q_tickets q ! k =
              \<lparr>r_id = ticket_id (ts ! k), r_name = ticket_name (ts ! k),
               r_service_id = service_id (ts ! k),
               position =
                 (if called (ts ! k) then 0
                  else 1 + int (length (filter (\<lambda>t. \<not> called t) (take k ts)))),
               r_called = called (ts ! k), r_created_at = created_at (ts ! k),
               r_called_at = called_at (ts ! k)\<rparr>)"
    by blast
qed

theorem queue_detail_lists_all_witness:
  "queue_detail 9 queue_db = Inl (HTTPException 404 ''Service not found'') \<and>
   get_service_row 1 queue_db =
     Some \<lparr>svc_id = 1, svc_name = ''Reception'', svc_description = None, svc_created_at = 0\<rparr> \<and>
   queue_detail 1 queue_db =
     Inr \<lparr>q_service_id = 1, q_service_name = ''Reception'', waiting = 2,
          q_tickets =
            [\<lparr>r_id = 1, r_name = ''Alice'', r_service_id = 1, position = 0, r_called = True,
              r_created_at = 10, r_called_at = Some 30\<rparr>,
             \<lparr>r_id = 2, r_name = ''Bob'', r_service_id = 1, position = 1, r_called = False,
              r_created_at = 20, r_called_at = None\<rparr>,
             \<lparr>r_id = 3, r_name = ''Carol'', r_service_id = 1, position = 2, r_called = False,
              r_created_at = 25, r_called_at = None\<rparr>]\<rparr>"
  using queue_detail_lists_all [of 9 queue_db] queue_detail_lists_all [of 1 queue_db]
  by (simp add: queue_db_def reception_def cafe_def alice_def bob_def carol_def dave_def
      queue_detail_def get_service_row_def service_tickets_def ticket_to_read_def Let_def)

subsection \<open>Positions\<close>

text \<open>
  How many keys of a list without repetitions are below a key of the list: the ranks are
  the numbers below the length of the list, each once.
\<close>

lemma rank_less_length:
  fixes x :: "'a::linorder"
  assumes "distinct xs" and "x \<in> set xs"
  shows "length (filter (\<lambda>y. y < x) xs) < length xs"
proof -
  have "length (filter (\<lambda>y. y < x) xs) = length xs - length (filter (\<lambda>y. \<not> y < x) xs)"
    using sum_length_filter_compl [of "\<lambda>y. y < x" xs] by simp
  moreover have "x \<in> set (filter (\<lambda>y. \<not> y < x) xs)" using assms by simp
  then have "0 < length (filter (\<lambda>y. \<not> y < x) xs)" by (metis length_pos_if_in_set)
  moreover have "length (filter (\<lambda>y. \<not> y < x) xs) \<le> length xs" by simp
  ultimately show ?thesis by linarith
qed

lemma rank_strict_mono:
  fixes x :: "'a::linorder"
  assumes "distinct xs" and "x \<in> set xs" and "x < x'"
  shows "length (filter (\<lambda>y. y < x) xs) < length (filter (\<lambda>y. y < x') xs)"
proof -
  have card: "length (filter (\<lambda>y. y < z) xs) = card {y \<in> set xs. y < z}" for z
  proof -
    have "{y. y < z} \<inter> set xs = {y \<in> set xs. y < z}" by blast
    then show ?thesis using distinct_length_filter [OF assms(1), of "\<lambda>y. y < z"] by simp
  qed
  have sub: "{y \<in> set xs. y < x} \<subseteq> {y \<in> set xs. y < x'}"
    using assms(3) by (auto intro: less_trans)
  have "x \<in> {y \<in> set xs. y < x'}" "x \<notin> {y \<in> set xs. y < x}"
    using assms(2,3) by simp_all
  with sub have "{y \<in> set xs. y < x} \<subset> {y \<in> set xs. y < x'}" by blast
  moreover have "finite {y \<in> set xs. y < x'}" by simp
  ultimately have "card {y \<in> set xs. y < x} < card {y \<in> set xs. y < x'}"
    by (rule psubset_card_mono [rotated])
  then show ?thesis by (simp only: card)
qed

lemma rank_inj:
  fixes xs :: "'a::linorder list"
  assumes "distinct xs"
  shows "inj_on (\<lambda>x. length (filter (\<lambda>y. y < x) xs)) (set xs)"
proof (rule inj_onI)
  fix x x' assume mem: "x \<in> set xs" "x' \<in> set xs"
    and eq: "length (filter (\<lambda>y. y < x) xs) = length (filter (\<lambda>y. y < x') xs)"
  show "x = x'"
  proof (rule ccontr)
    assume "x \<noteq> x'"
    then consider "x < x'" | "x' < x" by (meson neqE)
    then show False
    proof cases
      case 1
      from rank_strict_mono [OF assms mem(1) 1] eq show False by simp
    next
      case 2
      from rank_strict_mono [OF assms mem(2) 2] eq show False by simp
    qed
  qed
qed

lemma rank_image:
  fixes xs :: "'a::linorder list"
  assumes "distinct xs"
  shows "(\<lambda>x. length (filter (\<lambda>y. y < x) xs)) ` set xs = {0..<length xs}"
proof (rule card_subset_eq)
  show "finite {0..<length xs}" by simp
  show "(\<lambda>x. length (filter (\<lambda>y. y < x) xs)) ` set xs \<subseteq> {0..<length xs}"
    using rank_less_length [OF assms] by auto
  have "card ((\<lambda>x. length (filter (\<lambda>y. y < x) xs)) ` set xs) = card (set xs)"
    by (rule card_image [OF rank_inj [OF assms]])
  then show "card ((\<lambda>x. length (filter (\<lambda>y. y < x) xs)) ` set xs) = card {0..<length xs}"
    using assms by (simp add: distinct_card)
qed

text \<open>The position of a waiting ticket, read off the waiting tickets of its service.\<close>

lemma position_in_queue_waiting:
  assumes "t \<in> set (waiting_tickets sid s)"
  shows "position_in_queue t s =
         1 + int (length (filter (\<lambda>y. y < created_at t) (map created_at (waiting_tickets sid s))))"
proof -
  have t: "service_id t = sid" "\<not> called t" using assms by (auto simp: waiting_tickets_def)
  have "filter (\<lambda>u. service_id u = service_id t \<and> called u = False \<and> created_at u < created_at t) (tickets s)
        = filter (\<lambda>u. created_at u < created_at t) (waiting_tickets sid s)"
    by (simp add: waiting_tickets_def t conj_commute conj_left_commute)
  moreover have "length (filter (\<lambda>y. y < created_at t) (map created_at (waiting_tickets sid s)))
        = length (filter (\<lambda>u. created_at u < created_at t) (waiting_tickets sid s))"
    by (simp add: filter_map comp_def)
  ultimately show ?thesis
    using t by (simp add: position_in_queue_def)
qed

lemma image_rank_shift: "(\<lambda>n. 1 + int n) ` {0..<m} = {1..int m}"
proof (rule set_eqI)
  fix i :: int
  show "i \<in> (\<lambda>n. 1 + int n) ` {0..<m} \<longleftrightarrow> i \<in> {1..int m}"
  proof
    assume "i \<in> (\<lambda>n. 1 + int n) ` {0..<m}"
    then show "i \<in> {1..int m}" by auto
  next
    assume h: "i \<in> {1..int m}"
    then have "nat (i - 1) \<in> {0..<m}" "i = 1 + int (nat (i - 1))" by auto
    then show "i \<in> (\<lambda>n. 1 + int n) ` {0..<m}" by (rule rev_image_eqI)
  qed
qed

lemma tie_db_eval:
  "tie_db = \<lparr>services = [\<lparr>svc_id = 1, svc_name = ''Reception'', svc_description = None,
                           svc_created_at = 0\<rparr>],
             tickets = [\<lparr>ticket_id = 1, ticket_name = ''Alice'', service_id = 1, called = False,
                          created_at = 10, called_at = None\<rparr>,
                        \<lparr>ticket_id = 2, ticket_name = ''Bob'', service_id = 1, called = False,
                          created_at = 10, called_at = None\<rparr>]\<rparr>"
  by (simp add: tie_db_def run_def empty_db_def create_service_def register_ticket_def
      get_service_row_def next_rowid_def Let_def)

text \<open>
  An earlier waiting ticket of a service has a smaller position than a later one,
  whatever else waits.
\<close>

lemma position_in_queue_ascending:
  assumes t: "t \<in> set (waiting_tickets sid s)" and u: "u \<in> set (waiting_tickets sid s)"
    and lt: "created_at t < created_at u"
  shows "position_in_queue t s < position_in_queue u s"
proof -
  define K where "K = map created_at (waiting_tickets sid s)"
  have "filter (\<lambda>y. y < created_at t) K =
        filter (\<lambda>y. y < created_at t) (filter (\<lambda>y. y < created_at u) K)"
    using lt by (auto intro: filter_cong)
  moreover have "created_at t \<in> set (filter (\<lambda>y. y < created_at u) K)"
    using t lt by (simp add: K_def)
  then have "length (filter (\<lambda>y. y < created_at t) (filter (\<lambda>y. y < created_at u) K)) <
        length (filter (\<lambda>y. y < created_at u) K)"
    by (rule length_filter_less) simp
  ultimately have "length (filter (\<lambda>y. y < created_at t) K) <
        length (filter (\<lambda>y. y < created_at u) K)"
    by simp
  then show ?thesis
    unfolding position_in_queue_waiting [OF t] position_in_queue_waiting [OF u] K_def by simp
qed

text \<open>
  For a service whose waiting tickets have pairwise different \<open>created_at\<close>, the
  positions that \<open>position_in_queue\<close> computes for the waiting tickets of the service are
  pairwise different and are exactly the numbers from 1 to the number of waiting tickets
  of the service.
\<close>

theorem waiting_positions_exact:
  assumes "distinct (map created_at (waiting_tickets sid s))"
  shows "distinct (map (\<lambda>t. position_in_queue t s) (waiting_tickets sid s)) \<and>
         set (map (\<lambda>t. position_in_queue t s) (waiting_tickets sid s)) =
           {1 .. int (length (waiting_tickets sid s))}"
proof -
  define K where "K = map created_at (waiting_tickets sid s)"
  define rank where "rank = (\<lambda>x. length (filter (\<lambda>y. y < x) K))"
  have dK: "distinct K" using assms by (simp add: K_def)
  have pos: "map (\<lambda>t. position_in_queue t s) (waiting_tickets sid s) = map (\<lambda>x. 1 + int (rank x)) K"
    unfolding K_def rank_def map_map comp_def
    by (rule map_cong [OF refl]) (rule position_in_queue_waiting)
  have inj: "inj_on (\<lambda>x. 1 + int (rank x)) (set K)"
  proof (rule inj_onI)
    fix x y assume "x \<in> set K" "y \<in> set K" "1 + int (rank x) = 1 + int (rank y)"
    then show "x = y"
      using rank_inj [OF dK] by (simp add: inj_on_def rank_def)
  qed
  have "(\<lambda>x. 1 + int (rank x)) ` set K = (\<lambda>n. 1 + int n) ` (rank ` set K)"
    by (simp add: image_image)
  also have "rank ` set K = {0..<length K}"
    unfolding rank_def by (rule rank_image [OF dK])
  also have "(\<lambda>n. 1 + int n) ` {0..<length K} = {1..int (length K)}"
    by (rule image_rank_shift)
  finally have img: "(\<lambda>x. 1 + int (rank x)) ` set K = {1..int (length K)}" .
  have "distinct (map (\<lambda>x. 1 + int (rank x)) K)"
    using dK inj by (simp add: distinct_map)
  moreover have "length K = length (waiting_tickets sid s)" by (simp add: K_def)
  then have "set (map (\<lambda>x. 1 + int (rank x)) K) = {1..int (length (waiting_tickets sid s))}"
    using img by simp
  ultimately show ?thesis by (simp only: pos)
qed

theorem waiting_positions_exact_witness:
  "distinct (map created_at (waiting_tickets 1 queue_db)) \<and>
   waiting_tickets 1 queue_db = [bob, carol] \<and>
   position_in_queue bob queue_db = 1 \<and> position_in_queue carol queue_db = 2"
  using waiting_positions_exact [of 1 queue_db]
  by (simp add: queue_db_def alice_def bob_def carol_def dave_def waiting_tickets_def
      position_in_queue_def)

subsection \<open>The two computations of a position\<close>

lemma waiting_before_sorted:
  assumes srt: "sorted (map created_at ts)" and dist: "distinct ts" and k: "k < length ts"
    and ties: "\<forall>u \<in> set ts. \<not> called u \<and> u \<noteq> ts ! k \<longrightarrow> created_at u \<noteq> created_at (ts ! k)"
  shows "filter (\<lambda>u. \<not> called u \<and> created_at u < created_at (ts ! k)) ts =
         filter (\<lambda>u. \<not> called u) (take k ts)"
proof -
  define t where "t = ts ! k"
  define A where "A = take k ts"
  define B where "B = drop (Suc k) ts"
  have split: "ts = A @ t # B"
    unfolding A_def B_def t_def by (rule id_take_nth_drop [OF k])
  have le_A: "\<forall>a \<in> set A. created_at a \<le> created_at t"
    and le_B: "\<forall>b \<in> set B. created_at t \<le> created_at b"
    using srt by (auto simp: split sorted_append)
  have notin: "t \<notin> set A" "t \<notin> set B"
    using dist by (auto simp: split)
  have ties': "\<forall>u \<in> set A. \<not> called u \<longrightarrow> created_at u \<noteq> created_at t"
    using ties notin unfolding t_def [symmetric] by (auto simp: split)
  have fa: "filter (\<lambda>u. \<not> called u \<and> created_at u < created_at t) A = filter (\<lambda>u. \<not> called u) A"
  proof (rule filter_cong [OF refl])
    fix a assume "a \<in> set A"
    then show "(\<not> called a \<and> created_at a < created_at t) = (\<not> called a)"
      using le_A ties' by force
  qed
  have fb: "filter (\<lambda>u. \<not> called u \<and> created_at u < created_at t) B = []"
    using le_B by (auto simp: filter_empty_conv)
  have "filter (\<lambda>u. \<not> called u \<and> created_at u < created_at t) ts = filter (\<lambda>u. \<not> called u) A"
    by (subst split) (simp add: fa fb)
  then show ?thesis by (simp add: t_def A_def)
qed

lemma position_in_queue_service_tickets:
  assumes "\<not> called t"
  shows "position_in_queue t s =
         1 + int (length (filter (\<lambda>u. \<not> called u \<and> created_at u < created_at t)
                            (service_tickets (service_id t) s)))"
proof -
  have "filter (\<lambda>u. \<not> called u \<and> created_at u < created_at t) (service_tickets (service_id t) s) =
        sort_key created_at
          (filter (\<lambda>u. service_id u = service_id t \<and> called u = False \<and> created_at u < created_at t)
             (tickets s))"
    by (simp add: service_tickets_def filter_sort)
  then show ?thesis using assms by (simp add: position_in_queue_def)
qed

lemma distinct_service_tickets: "wf_db s \<Longrightarrow> distinct (service_tickets sid s)"
  by (simp add: wf_db_def service_tickets_def distinct_map)

lemma set_service_tickets:
  "set (service_tickets sid s) = {t \<in> set (tickets s). service_id t = sid}"
  by (simp add: service_tickets_def)

lemma queue_detail_tickets:
  "queue_detail sid s = Inr q \<Longrightarrow> q_tickets q = tickets_loop 1 (service_tickets sid s)"
  by (auto simp: queue_detail_def Let_def split: option.splits)

lemma queue_entry_position:
  assumes wf: "wf_db s"
    and ties: "distinct (map created_at (waiting_tickets sid s))"
    and k: "k < length (service_tickets sid s)"
  shows "tickets_loop 1 (service_tickets sid s) ! k =
         ticket_to_read (service_tickets sid s ! k)
           (position_in_queue (service_tickets sid s ! k) s)"
proof -
  define ts where "ts = service_tickets sid s"
  define t where "t = ts ! k"
  have mem: "t \<in> set ts" using k by (simp add: t_def ts_def)
  then have sid: "service_id t = sid" by (simp add: ts_def set_service_tickets)
  show ?thesis
  proof (cases "called t")
    case True
    then show ?thesis
      using k by (simp add: tickets_loop_nth position_in_queue_def t_def ts_def)
  next
    case False
    have inj: "inj_on created_at (set (waiting_tickets sid s))"
      using ties by (simp add: distinct_map)
    have tw: "t \<in> set (waiting_tickets sid s)"
      using mem False sid by (simp add: ts_def set_service_tickets waiting_tickets_def)
    have "\<forall>u \<in> set ts. \<not> called u \<and> u \<noteq> ts ! k \<longrightarrow> created_at u \<noteq> created_at (ts ! k)"
    proof (intro ballI impI)
      fix u assume "u \<in> set ts" and h: "\<not> called u \<and> u \<noteq> ts ! k"
      then have "u \<in> set (waiting_tickets sid s)"
        by (simp add: ts_def set_service_tickets waiting_tickets_def)
      with inj tw h show "created_at u \<noteq> created_at (ts ! k)"
        unfolding t_def [symmetric] by (auto dest: inj_onD)
    qed
    from waiting_before_sorted [OF _ _ _ this]
    have "filter (\<lambda>u. \<not> called u \<and> created_at u < created_at t) ts =
          filter (\<lambda>u. \<not> called u) (take k ts)"
      using k wf by (simp add: ts_def t_def sorted_service_tickets distinct_service_tickets)
    then have "position_in_queue t s = 1 + int (length (filter (\<lambda>u. \<not> called u) (take k ts)))"
      using position_in_queue_service_tickets [OF False, of s] by (simp add: sid ts_def)
    then show ?thesis
      using k False by (simp add: tickets_loop_nth t_def ts_def)
  qed
qed

text \<open>
  Claim C9. In a database whose ticket ids are pairwise different, take a service whose
  waiting tickets have pairwise different \<open>created_at\<close> and whose queue detail is \<open>q\<close>.
  For every ticket of the service, what \<open>get_ticket\<close> returns (the ticket with the
  position that \<open>position_in_queue\<close> computes, as \<open>register_ticket\<close> does for a new ticket)
  is an entry of the list of \<open>q\<close>, and every entry of that list with the id of the ticket
  has that same position.
\<close>

theorem position_agrees_with_queue_detail:
  assumes wf: "wf_db s"
    and q: "queue_detail sid s = Inr q"
    and ties: "distinct (map created_at (waiting_tickets sid s))"
    and t: "t \<in> set (tickets s)" "service_id t = sid"
  shows "get_ticket (ticket_id t) s = Inr (ticket_to_read t (position_in_queue t s)) \<and>
         ticket_to_read t (position_in_queue t s) \<in> set (q_tickets q) \<and>
         (\<forall>r \<in> set (q_tickets q). r_id r = ticket_id t \<longrightarrow> position r = position_in_queue t s)"
proof (intro conjI ballI impI)
  define ts where "ts = service_tickets sid s"
  have qt: "q_tickets q = tickets_loop 1 ts"
    unfolding ts_def by (rule queue_detail_tickets [OF q])
  have len: "length (q_tickets q) = length ts" by (simp add: qt length_tickets_loop)
  have entry: "q_tickets q ! j = ticket_to_read (ts ! j) (position_in_queue (ts ! j) s)"
    if "j < length ts" for j
    using queue_entry_position [OF wf ties, of j] that by (simp add: qt ts_def)
  have "t \<in> set ts" using t by (simp add: ts_def set_service_tickets)
  then obtain k where k: "k < length ts" "ts ! k = t" by (auto simp: in_set_conv_nth)
  show "get_ticket (ticket_id t) s = Inr (ticket_to_read t (position_in_queue t s))"
    using get_ticket_row_wf [OF wf t(1)] by (simp add: get_ticket_def)
  show "ticket_to_read t (position_in_queue t s) \<in> set (q_tickets q)"
    using entry [OF k(1)] k len by (metis nth_mem)
  fix r assume r: "r \<in> set (q_tickets q)" and id: "r_id r = ticket_id t"
  then obtain j where j: "j < length ts" "q_tickets q ! j = r"
    using len by (auto simp: in_set_conv_nth)
  have rj: "r = ticket_to_read (ts ! j) (position_in_queue (ts ! j) s)"
    using entry [OF j(1)] j(2) by simp
  then have "ticket_id (ts ! j) = ticket_id t" using id by (simp add: ticket_to_read_def)
  moreover have "ts ! j \<in> set (tickets s)"
    using j(1) nth_mem [of j ts] by (simp add: ts_def set_service_tickets)
  ultimately have "ts ! j = t"
    using wf t(1) by (auto simp: wf_db_def distinct_map inj_on_def)
  then show "position r = position_in_queue t s"
    by (simp add: rj ticket_to_read_def)
qed

theorem position_agrees_with_queue_detail_witness:
  "wf_db queue_db \<and>
   queue_detail 1 queue_db =
     Inr \<lparr>q_service_id = 1, q_service_name = ''Reception'', waiting = 2,
          q_tickets = [ticket_to_read alice 0, ticket_to_read bob 1, ticket_to_read carol 2]\<rparr> \<and>
   distinct (map created_at (waiting_tickets 1 queue_db)) \<and>
   carol \<in> set (tickets queue_db) \<and> service_id carol = 1 \<and>
   get_ticket 3 queue_db = Inr (ticket_to_read carol 2) \<and>
   position_in_queue carol queue_db = 2"
  using position_agrees_with_queue_detail [of queue_db 1
      "\<lparr>q_service_id = 1, q_service_name = ''Reception'', waiting = 2,
        q_tickets = [ticket_to_read alice 0, ticket_to_read bob 1, ticket_to_read carol 2]\<rparr>" carol]
  by (simp add: queue_db_def reception_def cafe_def alice_def bob_def carol_def dave_def
      wf_db_def queue_detail_def get_service_row_def service_tickets_def waiting_tickets_def
      get_ticket_def get_ticket_row_def position_in_queue_def Let_def)

subsection \<open>What a request leaves alone\<close>

lemma find_filter_keep:
  "(\<And>x. x \<in> set xs \<Longrightarrow> P x \<Longrightarrow> Q x) \<Longrightarrow> find P (filter Q xs) = find P xs"
  by (induction xs) auto

lemma find_map_keep:
  "(\<And>x. x \<in> set xs \<Longrightarrow> P (g x) = P x) \<Longrightarrow> (\<And>x. x \<in> set xs \<Longrightarrow> P x \<Longrightarrow> g x = x) \<Longrightarrow>
   find P (map g xs) = find P xs"
  by (induction xs) auto

lemma find_append_keep: "find P xs = Some x \<Longrightarrow> find P (xs @ ys) = Some x"
  by (induction xs) (auto split: if_splits)

lemma ticket_id_mark_called: "map ticket_id (mark_called tid now ts) = map ticket_id ts"
  by (induction ts) (simp_all add: mark_called_def)

lemma wf_db_create_service: "wf_db s \<Longrightarrow> wf_db (snd (create_service data now s))"
  by (simp add: create_service_def wf_db_def Let_def split: option.splits)

lemma wf_db_register_ticket: "wf_db s \<Longrightarrow> wf_db (snd (register_ticket data now s))"
  using next_rowid_fresh [of "map ticket_id (tickets s)"]
  by (simp add: register_ticket_def wf_db_def Let_def split: option.splits)

lemma wf_db_cancel_ticket: "wf_db s \<Longrightarrow> wf_db (snd (cancel_ticket tid s))"
  by (simp add: cancel_ticket_def wf_db_def distinct_map_filter split: option.splits)

lemma wf_db_call_next: "wf_db s \<Longrightarrow> wf_db (snd (call_next sid now s))"
  by (simp add: call_next_def wf_db_def Let_def ticket_id_mark_called split: option.splits)

lemma wf_db_admin_next: "wf_db s \<Longrightarrow> wf_db (snd (admin_next key sid now s))"
  by (simp add: admin_next_def wf_db_call_next split: sum.splits)

lemma wf_db_step: "wf_db s \<Longrightarrow> wf_db (step rq s)"
proof (cases rq)
  case (Pair now r)
  assume "wf_db s"
  then show ?thesis
    unfolding Pair
    by (cases r)
      (simp_all add: wf_db_create_service wf_db_register_ticket wf_db_cancel_ticket
        wf_db_admin_next)
qed

lemma wf_db_run: "wf_db s \<Longrightarrow> wf_db (run reqs s)"
  unfolding run_def by (induction reqs arbitrary: s) (simp_all add: wf_db_step)

lemma wf_db_empty: "wf_db empty_db"
  by (simp add: wf_db_def empty_db_def)

text \<open>A ticket that has been called is the same row after any one request.\<close>

lemma called_row_create_service:
  "get_ticket_row tid (snd (create_service data now s)) = get_ticket_row tid s"
  by (simp add: create_service_def get_ticket_row_def Let_def split: option.splits)

lemma called_row_register_ticket:
  "get_ticket_row tid s = Some t \<Longrightarrow>
   get_ticket_row tid (snd (register_ticket data now s)) = Some t"
  by (simp add: register_ticket_def get_ticket_row_def Let_def find_append_keep
      split: option.splits)

lemma called_row_cancel_ticket:
  assumes "get_ticket_row tid s = Some t" and "called t"
  shows "get_ticket_row tid (snd (cancel_ticket tid' s)) = Some t"
proof (cases "get_ticket_row tid' s")
  case None
  then show ?thesis using assms by (simp add: cancel_ticket_def)
next
  case (Some t')
  show ?thesis
  proof (cases "called t'")
    case True
    then show ?thesis using assms Some by (simp add: cancel_ticket_def)
  next
    case False
    have "ticket_id t' = tid'" using Some get_ticket_row_Some by blast
    moreover have "tid' \<noteq> tid" using Some False assms by auto
    ultimately have "find (\<lambda>u. ticket_id u = tid)
            (filter (\<lambda>u. ticket_id u \<noteq> ticket_id t') (tickets s)) =
          find (\<lambda>u. ticket_id u = tid) (tickets s)"
      by (intro find_filter_keep) auto
    then show ?thesis
      using assms Some False by (simp add: cancel_ticket_def get_ticket_row_def)
  qed
qed

lemma called_row_call_next:
  assumes wf: "wf_db s" and g: "get_ticket_row tid s = Some t" and c: "called t"
  shows "get_ticket_row tid (snd (call_next sid now s)) = Some t"
proof (cases "first_waiting sid s")
  case None
  then show ?thesis using g by (simp add: call_next_def)
next
  case (Some t')
  have w: "t' \<in> set (tickets s)" "\<not> called t'"
    using first_waiting_Some [OF Some] by simp_all
  have "ticket_id t' \<noteq> tid"
  proof
    assume "ticket_id t' = tid"
    then have "get_ticket_row tid s = Some t'"
      using get_ticket_row_wf [OF wf w(1)] by simp
    then show False using g c w(2) by simp
  qed
  then have "find (\<lambda>u. ticket_id u = tid) (mark_called (ticket_id t') now (tickets s)) =
        find (\<lambda>u. ticket_id u = tid) (tickets s)"
    unfolding mark_called_def by (intro find_map_keep) auto
  then show ?thesis
    using g Some by (simp add: call_next_def get_ticket_row_def Let_def)
qed

lemma called_row_admin_next:
  assumes "wf_db s" and "get_ticket_row tid s = Some t" and "called t"
  shows "get_ticket_row tid (snd (admin_next key sid now s)) = Some t"
  using assms by (simp add: admin_next_def called_row_call_next split: sum.splits)

lemma called_row_step:
  assumes "wf_db s" and "get_ticket_row tid s = Some t" and "called t"
  shows "get_ticket_row tid (step rq s) = Some t"
proof (cases rq)
  case (Pair now r)
  show ?thesis
    unfolding Pair using assms
    by (cases r)
      (simp_all add: called_row_create_service called_row_register_ticket
        called_row_cancel_ticket called_row_admin_next)
qed

lemma called_row_run:
  assumes "wf_db s" and "get_ticket_row tid s = Some t" and "called t"
  shows "get_ticket_row tid (run reqs s) = Some t"
  using assms unfolding run_def
proof (induction reqs arbitrary: s)
  case Nil
  then show ?case by simp
next
  case (Cons rq reqs)
  have "wf_db (step rq s)" using Cons.prems(1) by (rule wf_db_step)
  moreover have "get_ticket_row tid (step rq s) = Some t"
    using Cons.prems by (rule called_row_step)
  ultimately show ?case using Cons.IH Cons.prems(3) by simp
qed

text \<open>
  Claim C3. In a database whose ticket ids are pairwise different, take a ticket that
  has been called. After any sequence of requests, served at any clock readings, the
  row with its id is the same row, so it is still called, and \<open>get_ticket\<close> returns it
  with position 0.
\<close>

theorem called_stays_called:
  assumes "wf_db s" and "get_ticket_row tid s = Some t" and "called t"
  shows "get_ticket_row tid (run reqs s) = Some t \<and>
         get_ticket tid (run reqs s) = Inr (ticket_to_read t 0) \<and>
         position (ticket_to_read t 0) = 0"
proof -
  have row: "get_ticket_row tid (run reqs s) = Some t"
    using assms by (rule called_row_run)
  then have "get_ticket tid (run reqs s) = Inr (ticket_to_read t 0)"
    using assms(3) by (simp add: get_ticket_def position_in_queue_def)
  then show ?thesis using row by (simp add: ticket_to_read_def)
qed

theorem called_stays_called_witness:
  "wf_db demo_db \<and> get_ticket_row 1 demo_db = Some alice \<and> called alice \<and>
   get_ticket_row 1
     (run [(40, DeleteTicket 1), (41, AdminNext ''CHANGE_ME'' 1),
           (42, PostTickets \<lparr>tc_name = ''Alice'', tc_service_id = 1\<rparr>)] demo_db) = Some alice \<and>
   get_ticket 1
     (run [(40, DeleteTicket 1), (41, AdminNext ''CHANGE_ME'' 1),
           (42, PostTickets \<lparr>tc_name = ''Alice'', tc_service_id = 1\<rparr>)] demo_db) =
     Inr (ticket_to_read alice 0)"
  using called_stays_called [of demo_db 1 alice
      "[(40, DeleteTicket 1), (41, AdminNext ''CHANGE_ME'' 1),
        (42, PostTickets \<lparr>tc_name = ''Alice'', tc_service_id = 1\<rparr>)]"]
  by (simp add: demo_db_def alice_def bob_def wf_db_def get_ticket_row_def)

subsection \<open>Other services\<close>

lemma filter_other_service_removed:
  assumes "distinct (map ticket_id ts)" and "t \<in> set ts" and "service_id t \<noteq> T"
  shows "filter (\<lambda>u. service_id u = T) (filter (\<lambda>u. ticket_id u \<noteq> ticket_id t) ts) =
         filter (\<lambda>u. service_id u = T) ts"
proof -
  have same: "u = t" if "u \<in> set ts" "ticket_id u = ticket_id t" for u
    using that assms(1,2) by (auto simp: distinct_map inj_on_def)
  have "filter (\<lambda>u. ticket_id u \<noteq> ticket_id t \<and> service_id u = T) ts =
        filter (\<lambda>u. service_id u = T) ts"
  proof (rule filter_cong [OF refl])
    fix u assume "u \<in> set ts"
    then show "(ticket_id u \<noteq> ticket_id t \<and> service_id u = T) = (service_id u = T)"
      using same [of u] assms(3) by blast
  qed
  then show ?thesis by simp
qed

lemma filter_other_service_map:
  "service_id t \<noteq> T \<Longrightarrow> service_id t' \<noteq> T \<Longrightarrow>
   filter (\<lambda>u. service_id u = T) (map (\<lambda>u. if u = t then t' else u) ts) =
   filter (\<lambda>u. service_id u = T) ts"
  by (induction ts) simp_all

lemma filter_other_service_marked:
  assumes "distinct (map ticket_id ts)" and "t \<in> set ts" and "service_id t \<noteq> T"
  shows "filter (\<lambda>u. service_id u = T) (mark_called (ticket_id t) now ts) =
         filter (\<lambda>u. service_id u = T) ts"
proof -
  have m: "mark_called (ticket_id t) now ts =
        map (\<lambda>u. if u = t then t\<lparr>called := True, called_at := Some now\<rparr> else u) ts"
    using assms(1,2) by (rule mark_called_distinct)
  have "service_id (t\<lparr>called := True, called_at := Some now\<rparr>) \<noteq> T"
    using assms(3) by simp
  with assms(3) show ?thesis
    unfolding m by (rule filter_other_service_map)
qed

text \<open>
  Claim C10. In a database whose ticket ids are pairwise different, take two different
  services \<open>S\<close> and \<open>T\<close>. Registering a ticket for \<open>S\<close>, cancelling a ticket of \<open>S\<close> and
  calling the next ticket of \<open>S\<close> leave the rows of the tickets of \<open>T\<close> as they were, the
  same rows in the same order, and leave the table of services as it was.
\<close>

theorem other_services_untouched:
  assumes wf: "wf_db s" and ne: "S \<noteq> T"
  shows "(tc_service_id data = S \<longrightarrow>
            filter (\<lambda>u. service_id u = T) (tickets (snd (register_ticket data now s))) =
              filter (\<lambda>u. service_id u = T) (tickets s) \<and>
            services (snd (register_ticket data now s)) = services s) \<and>
         (\<forall>t. get_ticket_row tid s = Some t \<and> service_id t = S \<longrightarrow>
            filter (\<lambda>u. service_id u = T) (tickets (snd (cancel_ticket tid s))) =
              filter (\<lambda>u. service_id u = T) (tickets s) \<and>
            services (snd (cancel_ticket tid s)) = services s) \<and>
         filter (\<lambda>u. service_id u = T) (tickets (snd (call_next S now s))) =
           filter (\<lambda>u. service_id u = T) (tickets s) \<and>
         services (snd (call_next S now s)) = services s"
proof (intro conjI allI impI)
  assume d: "tc_service_id data = S"
  show "filter (\<lambda>u. service_id u = T) (tickets (snd (register_ticket data now s))) =
        filter (\<lambda>u. service_id u = T) (tickets s)"
  proof (cases "get_service_row (tc_service_id data) s")
    case None
    then show ?thesis by (simp add: register_ticket_def)
  next
    case (Some v)
    then have "svc_id v = S" using d get_service_row_Some by blast
    then show ?thesis using Some ne by (simp add: register_ticket_def Let_def)
  qed
  show "services (snd (register_ticket data now s)) = services s"
    by (simp add: register_ticket_def Let_def split: option.splits)
next
  fix t assume h: "get_ticket_row tid s = Some t \<and> service_id t = S"
  then have mem: "t \<in> set (tickets s)" using get_ticket_row_Some by blast
  have "filter (\<lambda>u. service_id u = T) (filter (\<lambda>u. ticket_id u \<noteq> ticket_id t) (tickets s)) =
        filter (\<lambda>u. service_id u = T) (tickets s)"
    using wf mem h ne by (intro filter_other_service_removed) (simp_all add: wf_db_def)
  then show "filter (\<lambda>u. service_id u = T) (tickets (snd (cancel_ticket tid s))) =
        filter (\<lambda>u. service_id u = T) (tickets s)"
    using h by (simp add: cancel_ticket_def)
  show "services (snd (cancel_ticket tid s)) = services s"
    by (simp add: cancel_ticket_def split: option.splits)
next
  show "filter (\<lambda>u. service_id u = T) (tickets (snd (call_next S now s))) =
        filter (\<lambda>u. service_id u = T) (tickets s)"
  proof (cases "first_waiting S s")
    case None
    then show ?thesis by (simp add: call_next_def)
  next
    case (Some t)
    have "t \<in> set (tickets s)" "service_id t = S"
      using first_waiting_Some [OF Some] by simp_all
    then have "filter (\<lambda>u. service_id u = T) (mark_called (ticket_id t) now (tickets s)) =
        filter (\<lambda>u. service_id u = T) (tickets s)"
      using wf ne by (intro filter_other_service_marked) (simp_all add: wf_db_def)
    then show ?thesis using Some by (simp add: call_next_def Let_def)
  qed
  show "services (snd (call_next S now s)) = services s"
    by (simp add: call_next_def Let_def split: option.splits)
qed

theorem other_services_untouched_witness:
  "wf_db queue_db \<and> (1::int) \<noteq> 2 \<and>
   get_ticket_row 3 queue_db = Some carol \<and> service_id carol = 1 \<and>
   filter (\<lambda>u. service_id u = 2) (tickets queue_db) = [dave] \<and>
   filter (\<lambda>u. service_id u = 2)
     (tickets (snd (register_ticket \<lparr>tc_name = ''Erin'', tc_service_id = 1\<rparr> 50 queue_db))) = [dave] \<and>
   filter (\<lambda>u. service_id u = 2) (tickets (snd (cancel_ticket 3 queue_db))) = [dave] \<and>
   filter (\<lambda>u. service_id u = 2) (tickets (snd (call_next 1 50 queue_db))) = [dave] \<and>
   services (snd (call_next 1 50 queue_db)) = services queue_db"
proof -
  have wf: "wf_db queue_db"
    by (simp add: wf_db_def queue_db_def alice_def bob_def carol_def dave_def)
  have ne: "(1::int) \<noteq> 2" by simp
  have g: "get_ticket_row 3 queue_db = Some carol"
    by (simp add: get_ticket_row_def queue_db_def alice_def bob_def carol_def)
  have sc: "service_id carol = 1" by (simp add: carol_def)
  have f: "filter (\<lambda>u. service_id u = 2) (tickets queue_db) = [dave]"
    by (simp add: queue_db_def alice_def bob_def carol_def dave_def)
  from other_services_untouched [OF wf ne, of "\<lparr>tc_name = ''Erin'', tc_service_id = 1\<rparr>" 50 3]
  show ?thesis
    by (simp add: wf g sc f)
qed

subsection \<open>Runs from the empty database\<close>

lemma wf_db_reachable: "wf_db (run reqs empty_db)"
  by (rule wf_db_run [OF wf_db_empty])

text \<open>
  When every request is served at a later clock reading than the one before, no two
  tickets of a run share their \<open>created_at\<close>.
\<close>

lemma created_at_mark_called: "map created_at (mark_called tid now ts) = map created_at ts"
  by (induction ts) (simp_all add: mark_called_def)

lemma created_at_step:
  assumes below: "\<forall>t \<in> set (tickets s). created_at t < now"
    and dist: "distinct (map created_at (tickets s))"
  shows "(\<forall>t \<in> set (tickets (step (now, rq) s)). created_at t \<le> now) \<and>
         distinct (map created_at (tickets (step (now, rq) s)))"
proof (cases rq)
  case (PostServices data)
  then show ?thesis
    using assms by (auto simp: create_service_def Let_def split: option.splits)
next
  case (PostTickets data)
  then show ?thesis
    using assms by (auto simp: register_ticket_def Let_def split: option.splits)
next
  case (DeleteTicket tid)
  then show ?thesis
    using assms by (auto simp: cancel_ticket_def distinct_map_filter split: option.splits)
next
  case (AdminNext key sid)
  have eq: "map created_at (tickets (step (now, rq) s)) = map created_at (tickets s)"
    unfolding AdminNext
    by (simp add: admin_next_def call_next_def Let_def created_at_mark_called
        split: sum.splits option.splits)
  have "\<forall>x \<in> set (map created_at (tickets (step (now, rq) s))). x \<le> now"
    unfolding eq using below by auto
  then have "\<forall>t \<in> set (tickets (step (now, rq) s)). created_at t \<le> now"
    by simp
  then show ?thesis
    using dist by (simp only: eq simp_thms)
qed

lemma created_at_run:
  assumes "sorted_wrt (<) (map fst reqs)"
    and "\<forall>now \<in> set (map fst reqs). \<forall>t \<in> set (tickets s). created_at t < now"
    and "distinct (map created_at (tickets s))"
  shows "distinct (map created_at (tickets (run reqs s)))"
  using assms unfolding run_def
proof (induction reqs arbitrary: s)
  case Nil
  then show ?case by simp
next
  case (Cons a reqs)
  obtain now rq where a: "a = (now, rq)" by (cases a)
  have below: "\<forall>t \<in> set (tickets s). created_at t < now"
    using Cons.prems(2) by (simp add: a)
  note st = created_at_step [OF below Cons.prems(3), of rq]
  have later: "\<forall>now' \<in> set (map fst reqs). now < now'"
    using Cons.prems(1) by (simp add: a)
  have "\<forall>now' \<in> set (map fst reqs). \<forall>t \<in> set (tickets (step a s)). created_at t < now'"
    using st later unfolding a by fastforce
  moreover have "sorted_wrt (<) (map fst reqs)" using Cons.prems(1) by simp
  ultimately have "distinct (map created_at (tickets (fold step reqs (step a s))))"
    using st unfolding a by (intro Cons.IH) simp_all
  then show ?case by simp
qed

lemma created_at_reachable:
  assumes "sorted_wrt (<) (map fst reqs)"
  shows "distinct (map created_at (waiting_tickets sid (run reqs empty_db)))"
proof -
  have "distinct (map created_at (tickets (run reqs empty_db)))"
    using assms by (intro created_at_run) (simp_all add: empty_db_def)
  then show ?thesis
    by (simp add: waiting_tickets_def distinct_map_filter)
qed

subsection \<open>Calls of the next visitor, one after the other and overlapping\<close>

lemma call_next_select_commit:
  "call_next sid now s = call_next_commit (first_waiting sid s) now s"
  by (simp add: call_next_def call_next_commit_def)

lemma serve_select_commit:
  "serve sid (Com i now) (serve sid (Sel i) c) =
     c\<lparr>database := snd (call_next sid now (database c)),
       in_flight := (in_flight c)(i := None),
       responses := responses c @ [(i, fst (call_next sid now (database c)))]\<rparr>"
  by (simp add: call_next_select_commit Let_def)

lemma waiting_after_mark:
  assumes "distinct (map ticket_id ts)" and "t \<in> set ts"
  shows "filter (\<lambda>u. service_id u = sid \<and> called u = False) (mark_called (ticket_id t) now ts) =
         filter (\<lambda>u. u \<noteq> t) (filter (\<lambda>u. service_id u = sid \<and> called u = False) ts)"
proof -
  have m: "mark_called (ticket_id t) now ts =
        map (\<lambda>u. if u = t then t\<lparr>called := True, called_at := Some now\<rparr> else u) ts"
    using assms by (rule mark_called_distinct)
  show ?thesis unfolding m by (induction ts) auto
qed

lemma call_next_some:
  assumes wf: "wf_db s" and f: "first_waiting sid s = Some t"
  shows "fst (call_next sid now s) = Inr (ticket_to_read (t\<lparr>called := True, called_at := Some now\<rparr>) 0)"
    and "waiting_tickets sid (snd (call_next sid now s)) =
         filter (\<lambda>u. u \<noteq> t) (waiting_tickets sid s)"
    and "t \<in> set (waiting_tickets sid s)"
proof -
  have mem: "t \<in> set (tickets s)" "service_id t = sid" "\<not> called t"
    using first_waiting_Some [OF f] by simp_all
  show "fst (call_next sid now s) = Inr (ticket_to_read (t\<lparr>called := True, called_at := Some now\<rparr>) 0)"
    using f by (simp add: call_next_def Let_def)
  show "waiting_tickets sid (snd (call_next sid now s)) =
         filter (\<lambda>u. u \<noteq> t) (waiting_tickets sid s)"
    using f waiting_after_mark [of "tickets s" t sid now] wf mem(1)
    by (simp add: call_next_def Let_def waiting_tickets_def wf_db_def)
  show "t \<in> set (waiting_tickets sid s)"
    using mem by (simp add: waiting_tickets_def)
qed

lemma distinct_waiting_tickets: "wf_db s \<Longrightarrow> distinct (waiting_tickets sid s)"
  by (simp add: wf_db_def waiting_tickets_def distinct_map)

lemma length_filter_neq:
  "distinct xs \<Longrightarrow> t \<in> set xs \<Longrightarrow> Suc (length (filter (\<lambda>u. u \<noteq> t) xs)) = length xs"
proof (induction xs)
  case Nil
  then show ?case by simp
next
  case (Cons a xs)
  show ?case
  proof (cases "a = t")
    case True
    then have "t \<notin> set xs" using Cons.prems(1) by simp
    then have "filter (\<lambda>u. u \<noteq> t) xs = xs" by (auto simp: filter_id_conv)
    then show ?thesis using True by simp
  next
    case False
    then show ?thesis using Cons by simp
  qed
qed

text \<open>
  Calls served one after the other, from a database with pairwise different ticket ids:
  each call gets one response; as many calls succeed as there are waiting tickets or
  calls, whichever is less; the other calls raise 404; the tickets returned are waiting
  tickets of the service, no two the same.
\<close>

lemma serial_calls:
  assumes "wf_db (database c)"
  shows "\<exists>rs. responses (schedule sid (serial i nows) c) = responses c @ rs \<and>
           map fst rs = [i..<i + length nows] \<and>
           length (called_tickets (map snd rs)) =
             min (length (waiting_tickets sid (database c))) (length nows) \<and>
           length (filter (\<lambda>r. r = Inl (HTTPException 404 ''No one waiting'')) (map snd rs)) =
             length nows - min (length (waiting_tickets sid (database c))) (length nows) \<and>
           distinct (map r_id (called_tickets (map snd rs))) \<and>
           r_id ` set (called_tickets (map snd rs)) \<subseteq>
             ticket_id ` set (waiting_tickets sid (database c))"
  using assms
proof (induction nows arbitrary: c i)
  case Nil
  then show ?case by (simp add: schedule_def)
next
  case (Cons now nows)
  define s where "s = database c"
  define c1 where "c1 = serve sid (Com i now) (serve sid (Sel i) c)"
  define r where "r = fst (call_next sid now s)"
  have wf: "wf_db s" using Cons.prems by (simp add: s_def)
  have c1: "database c1 = snd (call_next sid now s)" "responses c1 = responses c @ [(i, r)]"
    unfolding c1_def serve_select_commit by (simp_all add: s_def r_def)
  have wf1: "wf_db (database c1)" using wf by (simp add: c1 wf_db_call_next)
  have run: "schedule sid (serial i (now # nows)) c = schedule sid (serial (Suc i) nows) c1"
    by (simp add: schedule_def c1_def)
  from Cons.IH [OF wf1, of "Suc i"] obtain rs where
    rs: "responses (schedule sid (serial (Suc i) nows) c1) = responses c1 @ rs"
      "map fst rs = [Suc i..<Suc i + length nows]"
      "length (called_tickets (map snd rs)) =
         min (length (waiting_tickets sid (database c1))) (length nows)"
      "length (filter (\<lambda>r. r = Inl (HTTPException 404 ''No one waiting'')) (map snd rs)) =
         length nows - min (length (waiting_tickets sid (database c1))) (length nows)"
      "distinct (map r_id (called_tickets (map snd rs)))"
      "r_id ` set (called_tickets (map snd rs)) \<subseteq>
         ticket_id ` set (waiting_tickets sid (database c1))"
    by blast
  have resp: "responses (schedule sid (serial i (now # nows)) c) = responses c @ (i, r) # rs"
    unfolding run rs(1) c1(2) by simp
  have idx: "map fst ((i, r) # rs) = [i..<i + length (now # nows)]"
    by (simp add: rs(2) upt_rec)
  show ?case
  proof (cases "first_waiting sid s")
    case None
    then have W: "waiting_tickets sid s = []" by (simp add: first_waiting_None)
    have r404: "r = Inl (HTTPException 404 ''No one waiting'')" and same: "database c1 = s"
      using None by (simp_all add: r_def c1(1) call_next_def)
    show ?thesis
      using resp idx rs(3,4,5,6)
      by (intro exI [of _ "(i, r) # rs"]) (simp add: r404 same W s_def [symmetric])
  next
    case (Some t)
    note cn = call_next_some [OF wf Some]
    define t' where "t' = ticket_to_read (t\<lparr>called := True, called_at := Some now\<rparr>) 0"
    have rt: "r = Inr t'" using cn(1) by (simp add: r_def t'_def)
    have id': "r_id t' = ticket_id t" by (simp add: t'_def ticket_to_read_def)
    have W1: "waiting_tickets sid (database c1) = filter (\<lambda>u. u \<noteq> t) (waiting_tickets sid s)"
      using cn(2) by (simp add: c1(1))
    have dW: "distinct (waiting_tickets sid s)" using wf by (rule distinct_waiting_tickets)
    have len: "Suc (length (waiting_tickets sid (database c1))) = length (waiting_tickets sid s)"
      unfolding W1 using dW cn(3) by (rule length_filter_neq)
    have "ticket_id t \<notin> ticket_id ` set (waiting_tickets sid (database c1))"
    proof
      assume "ticket_id t \<in> ticket_id ` set (waiting_tickets sid (database c1))"
      then obtain u where u: "u \<in> set (waiting_tickets sid s)" "u \<noteq> t" "ticket_id u = ticket_id t"
        unfolding W1 by auto
      then have "u \<in> set (tickets s)" "t \<in> set (tickets s)"
        using cn(3) by (simp_all add: waiting_tickets_def)
      then show False
        using u(2,3) wf by (auto simp: wf_db_def distinct_map inj_on_def)
    qed
    then have fresh: "ticket_id t \<notin> r_id ` set (called_tickets (map snd rs))"
      using rs(6) by blast
    have sub: "r_id ` set (called_tickets (map snd rs)) \<subseteq> ticket_id ` set (waiting_tickets sid s)"
      using rs(6) unfolding W1 by auto
    have "length (called_tickets (map snd ((i, r) # rs))) =
            min (length (waiting_tickets sid s)) (length (now # nows))"
      using rs(3) len by (simp add: rt)
    moreover have "length (filter (\<lambda>r. r = Inl (HTTPException 404 ''No one waiting''))
              (map snd ((i, r) # rs))) =
            length (now # nows) - min (length (waiting_tickets sid s)) (length (now # nows))"
      using rs(4) len by (simp add: rt)
    moreover have "distinct (map r_id (called_tickets (map snd ((i, r) # rs))))"
      using rs(5) fresh by (simp add: rt id')
    moreover have "r_id ` set (called_tickets (map snd ((i, r) # rs))) \<subseteq>
            ticket_id ` set (waiting_tickets sid s)"
      using sub cn(3) by (simp add: rt id')
    ultimately show ?thesis
      using resp idx unfolding s_def by blast
  qed
qed

text \<open>
  Claim C6, as the code has it. From a database with pairwise different ticket ids, let
  more calls of the next visitor than the service has waiting tickets be served one
  after the other, each committing before the next one selects. Then each call gets one
  response; as many calls succeed as the service had waiting tickets; the other calls
  raise 404 ``No one waiting''; and the tickets returned are waiting tickets of the
  service, no two with the same id.
\<close>

theorem serial_call_next_outcomes:
  assumes "wf_db s" and "length (waiting_tickets sid s) < length nows"
  shows "map fst (responses (schedule sid (serial 0 nows) (start s))) = [0..<length nows] \<and>
         length (called_tickets (map snd (responses (schedule sid (serial 0 nows) (start s))))) =
           length (waiting_tickets sid s) \<and>
         length (filter (\<lambda>r. r = Inl (HTTPException 404 ''No one waiting''))
                   (map snd (responses (schedule sid (serial 0 nows) (start s))))) =
           length nows - length (waiting_tickets sid s) \<and>
         distinct (map r_id
           (called_tickets (map snd (responses (schedule sid (serial 0 nows) (start s)))))) \<and>
         r_id ` set (called_tickets (map snd (responses (schedule sid (serial 0 nows) (start s)))))
           \<subseteq> ticket_id ` set (waiting_tickets sid s)"
proof -
  have "wf_db (database (start s))" using assms(1) by (simp add: start_def)
  from serial_calls [OF this, of sid 0 nows] obtain rs where
    rs: "responses (schedule sid (serial 0 nows) (start s)) = responses (start s) @ rs"
      "map fst rs = [0..<0 + length nows]"
      "length (called_tickets (map snd rs)) =
         min (length (waiting_tickets sid (database (start s)))) (length nows)"
      "length (filter (\<lambda>r. r = Inl (HTTPException 404 ''No one waiting'')) (map snd rs)) =
         length nows - min (length (waiting_tickets sid (database (start s)))) (length nows)"
      "distinct (map r_id (called_tickets (map snd rs)))"
      "r_id ` set (called_tickets (map snd rs)) \<subseteq>
         ticket_id ` set (waiting_tickets sid (database (start s)))"
    by blast
  have eq: "responses (schedule sid (serial 0 nows) (start s)) = rs"
    using rs(1) by (simp add: start_def)
  have db: "database (start s) = s" by (simp add: start_def)
  have m: "min (length (waiting_tickets sid s)) (length nows) = length (waiting_tickets sid s)"
    using assms(2) by simp
  show ?thesis
    using rs(2-6) unfolding eq db m by simp
qed

theorem serial_call_next_outcomes_witness:
  "wf_db demo_db \<and> length (waiting_tickets 1 demo_db) < length [52, 53 :: int] \<and>
   length (waiting_tickets 1 demo_db) = 1 \<and>
   responses (schedule 1 (serial 0 [52, 53]) (start demo_db)) =
     [(0, Inr \<lparr>r_id = 2, r_name = ''Bob'', r_service_id = 1, position = 0, r_called = True,
               r_created_at = 20, r_called_at = Some 52\<rparr>),
      (1, Inl (HTTPException 404 ''No one waiting''))]"
proof -
  have wf: "wf_db demo_db"
    by (simp add: wf_db_def demo_db_def alice_def bob_def)
  have w: "waiting_tickets 1 demo_db = [bob]"
    by (simp add: waiting_tickets_def demo_db_def alice_def bob_def)
  have len: "length (waiting_tickets 1 demo_db) < length [52, 53 :: int]"
    by (simp add: w)
  have r: "responses (schedule 1 (serial 0 [52, 53]) (start demo_db)) =
     [(0, Inr \<lparr>r_id = 2, r_name = ''Bob'', r_service_id = 1, position = 0, r_called = True,
               r_created_at = 20, r_called_at = Some 52\<rparr>),
      (1, Inl (HTTPException 404 ''No one waiting''))]"
    by (simp add: schedule_def start_def demo_db_def alice_def bob_def first_waiting_def
        waiting_tickets_def call_next_commit_def mark_called_def ticket_to_read_def Let_def)
  have one: "length (waiting_tickets 1 demo_db) = 1" by (simp add: w)
  from serial_call_next_outcomes [OF wf len] wf len one r show ?thesis
    by blast
qed

text \<open>
  Two calls that overlap both return Bob. One ticket waits at the reception of
  \<open>demo_db\<close>; both requests select before either commits; both succeed, with the same
  ticket, and no call raises 404.
\<close>

theorem overlapping_call_next_counterexample:
  "length (waiting_tickets 1 demo_db) = 1 \<and>
   responses (schedule 1 [Sel 0, Sel 1, Com 0 52, Com 1 53] (start demo_db)) =
     [(0, Inr \<lparr>r_id = 2, r_name = ''Bob'', r_service_id = 1, position = 0, r_called = True,
               r_created_at = 20, r_called_at = Some 52\<rparr>),
      (1, Inr \<lparr>r_id = 2, r_name = ''Bob'', r_service_id = 1, position = 0, r_called = True,
               r_created_at = 20, r_called_at = Some 53\<rparr>)]"
  by (simp add: schedule_def start_def demo_db_def alice_def bob_def first_waiting_def
      waiting_tickets_def call_next_commit_def mark_called_def ticket_to_read_def Let_def)

subsection \<open>Equal arrival times\<close>

text \<open>
  Claim C2 fails in the code when two waiting tickets of a service have the same
  \<open>created_at\<close>. In \<open>tie_db\<close>, reached from the empty database by creating the reception
  and registering Alice and Bob at the same clock reading, two tickets wait at the
  reception: \<open>get_ticket\<close> gives both position 1, so position 1 is taken twice and
  position 2 not at all, while \<open>queue_detail\<close> on the same database gives Alice position 1
  and Bob position 2.
\<close>

theorem tie_positions_repeat:
  "tie_db = \<lparr>services = [\<lparr>svc_id = 1, svc_name = ''Reception'', svc_description = None,
                           svc_created_at = 0\<rparr>],
             tickets = [\<lparr>ticket_id = 1, ticket_name = ''Alice'', service_id = 1, called = False,
                          created_at = 10, called_at = None\<rparr>,
                        \<lparr>ticket_id = 2, ticket_name = ''Bob'', service_id = 1, called = False,
                          created_at = 10, called_at = None\<rparr>]\<rparr> \<and>
   length (waiting_tickets 1 tie_db) = 2 \<and>
   get_ticket 1 tie_db =
     Inr \<lparr>r_id = 1, r_name = ''Alice'', r_service_id = 1, position = 1, r_called = False,
          r_created_at = 10, r_called_at = None\<rparr> \<and>
   get_ticket 2 tie_db =
     Inr \<lparr>r_id = 2, r_name = ''Bob'', r_service_id = 1, position = 1, r_called = False,
          r_created_at = 10, r_called_at = None\<rparr> \<and>
   queue_detail 1 tie_db =
     Inr \<lparr>q_service_id = 1, q_service_name = ''Reception'', waiting = 2,
          q_tickets =
            [\<lparr>r_id = 1, r_name = ''Alice'', r_service_id = 1, position = 1, r_called = False,
              r_created_at = 10, r_called_at = None\<rparr>,
             \<lparr>r_id = 2, r_name = ''Bob'', r_service_id = 1, position = 2, r_called = False,
              r_created_at = 10, r_called_at = None\<rparr>]\<rparr>"
  by (simp add: tie_db_eval waiting_tickets_def get_ticket_def get_ticket_row_def
      position_in_queue_def queue_detail_def get_service_row_def service_tickets_def
      ticket_to_read_def Let_def)

end
